theory Spec2Isabelle
  imports Complex_Main
begin

chapter \<open>The model\<close>

section \<open>JavaScript values\<close>

text \<open>
  A JavaScript string is a sequence of UTF-16 code units; a code unit is modelled by its
  number. \<open>js\<close> turns an ASCII literal into such a string.
\<close>

type_synonym jsstring = "nat list"

definition js :: "string \<Rightarrow> jsstring" where
  "js s = map of_char s"

text \<open>The class \<^verbatim>\<open>\d\<close> of a regular expression: the ASCII digits.\<close>

definition isDigit :: "nat \<Rightarrow> bool" where
  "isDigit c = (48 \<le> c \<and> c \<le> 57)"

text \<open>
  The class \<^verbatim>\<open>\s\<close>, which is also what \<^verbatim>\<open>String.prototype.trim\<close> removes:
  the WhiteSpace and LineTerminator code points of ECMAScript.
\<close>

definition isSpace :: "nat \<Rightarrow> bool" where
  "isSpace c = (c = 9 \<or> c = 10 \<or> c = 11 \<or> c = 12 \<or> c = 13 \<or> c = 32 \<or> c = 160
     \<or> c = 5760 \<or> (8192 \<le> c \<and> c \<le> 8202) \<or> c = 8232 \<or> c = 8233 \<or> c = 8239
     \<or> c = 8287 \<or> c = 12288 \<or> c = 65279)"

definition trim :: "jsstring \<Rightarrow> jsstring" where
  "trim s = rev (dropWhile isSpace (rev (dropWhile isSpace s)))"

text \<open>\<^verbatim>\<open>s.padStart(2, '0')\<close>.\<close>

definition padStart2 :: "jsstring \<Rightarrow> jsstring" where
  "padStart2 s = replicate (2 - length s) 48 @ s"

text \<open>The value of a string of decimal digits (\<^verbatim>\<open>parseInt\<close> on such a string).\<close>

definition decimalValue :: "jsstring \<Rightarrow> nat" where
  "decimalValue s = foldl (\<lambda>n c. 10 * n + (c - 48)) 0 s"

section \<open>Normalizer: dates (\<^verbatim>\<open>parseDate\<close>)\<close>

text \<open>\<^verbatim>\<open>/^\d{4}-\d{2}-\d{2}$/\<close>\<close>

definition isoDateRe :: "jsstring \<Rightarrow> bool" where
  "isoDateRe s = (length s = 10 \<and> list_all isDigit (take 4 s) \<and> s ! 4 = 45
     \<and> list_all isDigit (take 2 (drop 5 s)) \<and> s ! 7 = 45 \<and> list_all isDigit (drop 8 s))"

text \<open>
  The two day/month/year expressions,
  \<^verbatim>\<open>/^(\d{1,2})[\/\-\.](\d{1,2})[\/\-\.](\d{4})$/\<close> and
  \<^verbatim>\<open>/^(\d{1,2})[\/\-](\d{1,2})[\/\-](\d{2})$/\<close>, differ in the separator class and in
  the number of year digits. A group \<^verbatim>\<open>\d{1,2}\<close> is followed by a separator, which is
  not a digit, so it matches exactly when the run of digits there has one or two digits.
  The result holds the three captured groups.
\<close>

definition isSep3 :: "nat \<Rightarrow> bool" where
  "isSep3 c = (c = 47 \<or> c = 45 \<or> c = 46)"

definition isSep2 :: "nat \<Rightarrow> bool" where
  "isSep2 c = (c = 47 \<or> c = 45)"

definition dmyMatch :: "(nat \<Rightarrow> bool) \<Rightarrow> nat \<Rightarrow> jsstring \<Rightarrow> (jsstring \<times> jsstring \<times> jsstring) option" where
  "dmyMatch isSep ylen s =
     (let day = takeWhile isDigit s; r1 = dropWhile isDigit s in
      if length day < 1 \<or> 2 < length day then None
      else case r1 of
        [] \<Rightarrow> None
      | c1 # r2 \<Rightarrow>
          if \<not> isSep c1 then None
          else let month = takeWhile isDigit r2; r3 = dropWhile isDigit r2 in
            if length month < 1 \<or> 2 < length month then None
            else case r3 of
              [] \<Rightarrow> None
            | c2 # year \<Rightarrow>
                if isSep c2 \<and> length year = ylen \<and> list_all isDigit year
                then Some (day, month, year) else None)"

text \<open>
  \<^verbatim>\<open>parseDate\<close>. The last attempt of the source hands the string to the built-in
  \<^verbatim>\<open>Date\<close>; the parameter \<open>jsDate\<close> stands for it: \<open>jsDate s = Some r\<close> when
  \<^verbatim>\<open>new Date(s)\<close> is a valid date whose \<^verbatim>\<open>toISOString().split('T')[0]\<close> is \<open>r\<close>,
  and \<open>None\<close> when it is an invalid date.
\<close>

definition parseDate :: "(jsstring \<Rightarrow> jsstring option) \<Rightarrow> jsstring \<Rightarrow> jsstring" where
  "parseDate jsDate dateStr =
     (if dateStr = [] then []
      else let cleaned = trim dateStr in
        if isoDateRe cleaned then cleaned
        else case dmyMatch isSep3 4 cleaned of
          Some (day, month, year) \<Rightarrow> year @ js ''-'' @ padStart2 month @ js ''-'' @ padStart2 day
        | None \<Rightarrow>
           (case dmyMatch isSep2 2 cleaned of
              Some (day, month, year) \<Rightarrow>
                (let fullYear = (if decimalValue year > 50 then js ''19'' @ year else js ''20'' @ year)
                 in fullYear @ js ''-'' @ padStart2 month @ js ''-'' @ padStart2 day)
            | None \<Rightarrow>
               (case jsDate cleaned of
                  Some isoDay \<Rightarrow> isoDay
                | None \<Rightarrow> cleaned)))"

text \<open>
  What \<^verbatim>\<open>toISOString\<close> prints for a year outside 0..9999: a sign and six year digits,
  \<^verbatim>\<open>/^[+-]\d{6}-\d{2}-\d{2}$/\<close>.
\<close>

definition extIsoDateRe :: "jsstring \<Rightarrow> bool" where
  "extIsoDateRe s = (length s = 13 \<and> (s ! 0 = 43 \<or> s ! 0 = 45) \<and> list_all isDigit (take 6 (drop 1 s))
     \<and> s ! 7 = 45 \<and> list_all isDigit (take 2 (drop 8 s)) \<and> s ! 10 = 45
     \<and> list_all isDigit (drop 11 s))"

text \<open>
  The built-in \<^verbatim>\<open>Date\<close> as ECMAScript specifies it: the date part of \<^verbatim>\<open>toISOString\<close> is
  \<^verbatim>\<open>YYYY-MM-DD\<close>, or the expanded form above, which \<^verbatim>\<open>Date\<close> reads back as the
  same day.
\<close>

definition isoDateBuiltin :: "(jsstring \<Rightarrow> jsstring option) \<Rightarrow> bool" where
  "isoDateBuiltin jsDate =
     (\<forall>s r. jsDate s = Some r \<longrightarrow> isoDateRe r \<or> (extIsoDateRe r \<and> jsDate r = Some r))"

text \<open>
  A sample \<^verbatim>\<open>Date\<close> for concrete evaluations: it reads one English date and one
  expanded-year date, and calls every other string an invalid date.
\<close>

definition sampleDate :: "jsstring \<Rightarrow> jsstring option" where
  "sampleDate s =
     (if s = js ''Jan 5, 2024'' then Some (js ''2024-01-05'')
      else if s = js ''+010000-01-01'' then Some (js ''+010000-01-01'')
      else None)"

text \<open>\<^verbatim>\<open>s.startsWith(p)\<close> and \<^verbatim>\<open>s.includes(p)\<close>.\<close>

fun startsWith :: "jsstring \<Rightarrow> jsstring \<Rightarrow> bool" where
  "startsWith s [] = True"
| "startsWith [] (p # ps) = False"
| "startsWith (c # s) (p # ps) = (c = p \<and> startsWith s ps)"

fun jsIncludes :: "jsstring \<Rightarrow> jsstring \<Rightarrow> bool" where
  "jsIncludes [] p = (p = [])"
| "jsIncludes (c # s) p = (startsWith (c # s) p \<or> jsIncludes s p)"

text \<open>
  A JavaScript number: not-a-number, the two infinities, or a finite value. A finite
  value is kept exact; the rounding of a decimal literal to the nearest binary64 value is
  not modelled, and neither is the sign of zero.
\<close>

datatype jsnumber = NaN | PosInf | NegInf | Fin rat

text \<open>\<^verbatim>\<open>Math.abs\<close>, \<^verbatim>\<open>x > 0\<close> and \<^verbatim>\<open>x < 0\<close>.\<close>

fun jsAbs :: "jsnumber \<Rightarrow> jsnumber" where
  "jsAbs NaN = NaN"
| "jsAbs PosInf = PosInf"
| "jsAbs NegInf = PosInf"
| "jsAbs (Fin q) = Fin \<bar>q\<bar>"


fun isNegative :: "jsnumber \<Rightarrow> bool" where
  "isNegative NaN = False"
| "isNegative PosInf = False"
| "isNegative NegInf = True"
| "isNegative (Fin q) = (q < 0)"

text \<open>
  The built-in \<^verbatim>\<open>parseFloat\<close>: leading white space is skipped, and the longest prefix of
  the rest that is a decimal literal (an optional sign, then \<^verbatim>\<open>Infinity\<close> or digits
  with an optional fraction and an optional exponent) gives the value; there is no such
  prefix when neither an integer digit nor a fraction digit is found, and the result is
  \<^verbatim>\<open>NaN\<close>. \<open>exponentPart\<close> is the value of the exponent at the head of a string,
  0 when there is none (an \<^verbatim>\<open>e\<close> without digits is not part of the literal).
\<close>

definition exponentPart :: "jsstring \<Rightarrow> int" where
  "exponentPart r =
     (case r of
        [] \<Rightarrow> 0
      | c # t \<Rightarrow>
          if c \<noteq> 101 \<and> c \<noteq> 69 then 0
          else (case t of
            [] \<Rightarrow> 0
          | sg # u \<Rightarrow>
              if sg = 43 \<or> sg = 45
              then (let ds = takeWhile isDigit u in
                    if ds = [] then 0
                    else if sg = 45 then - int (decimalValue ds) else int (decimalValue ds))
              else (let ds = takeWhile isDigit t in
                    if ds = [] then 0 else int (decimalValue ds))))"

definition parseFloat :: "jsstring \<Rightarrow> jsnumber" where
  "parseFloat s =
     (let t = dropWhile isSpace s;
          neg = (t \<noteq> [] \<and> hd t = 45);
          u = (if t \<noteq> [] \<and> (hd t = 45 \<or> hd t = 43) then tl t else t)
      in if take 8 u = js ''Infinity'' then (if neg then NegInf else PosInf)
         else
           (let ip = takeWhile isDigit u;
                r1 = dropWhile isDigit u;
                hasDot = (r1 \<noteq> [] \<and> hd r1 = 46);
                fp = (if hasDot then takeWhile isDigit (tl r1) else []);
                r2 = (if hasDot then dropWhile isDigit (tl r1) else r1)
            in if ip = [] \<and> fp = [] then NaN
               else
                 (let mant = decimalValue (ip @ fp);
                      e = exponentPart r2 - int (length fp);
                      v = (if 0 \<le> e then of_nat mant * 10 ^ nat e else of_nat mant / 10 ^ nat (- e))
                  in Fin (if neg then - v else v))))"

section \<open>Normalizer: amounts (\<^verbatim>\<open>parseAmount\<close>, \<^verbatim>\<open>determineDebitCredit\<close>)\<close>

text \<open>An argument of type \<^verbatim>\<open>string | number\<close>.\<close>

datatype amountInput = AmtStr jsstring | AmtNum jsnumber

text \<open>
  The class \<^verbatim>\<open>[\<close>rupee, dollar, euro, pound\<^verbatim>\<open>\s]\<close> of the first replacement: the code
  units U+20B9, U+0024, U+20AC and U+00A3, and white space.
\<close>

definition isCurrencyOrSpace :: "nat \<Rightarrow> bool" where
  "isCurrencyOrSpace c = (c = 8377 \<or> c = 36 \<or> c = 8364 \<or> c = 163 \<or> isSpace c)"

text \<open>
  \<^verbatim>\<open>cleaned.replace(/(dr\.?|cr\.?)$/i, '')\<close>: a match ends at the end of the string, so it
  is the last two code units, \<^verbatim>\<open>d\<close> or \<^verbatim>\<open>c\<close> and then \<^verbatim>\<open>r\<close> in either case, or these
  followed by a full stop. \<open>stripDrCrRev\<close> works on the reversed string.
\<close>

definition isDC :: "nat \<Rightarrow> bool" where
  "isDC c = (c = 100 \<or> c = 68 \<or> c = 99 \<or> c = 67)"

definition isR :: "nat \<Rightarrow> bool" where
  "isR c = (c = 114 \<or> c = 82)"

fun stripDrCrRev :: "jsstring \<Rightarrow> jsstring" where
  "stripDrCrRev (p # b # a # r) =
     (if p = 46 \<and> isR b \<and> isDC a then r
      else if isR p \<and> isDC b then a # r
      else p # b # a # r)"
| "stripDrCrRev [p, b] = (if isR p \<and> isDC b then [] else [p, b])"
| "stripDrCrRev s = s"

definition stripDrCr :: "jsstring \<Rightarrow> jsstring" where
  "stripDrCr s = rev (stripDrCrRev (rev s))"

text \<open>
  \<^verbatim>\<open>parseAmount\<close>. The source also computes \<^verbatim>\<open>isDr\<close> and \<^verbatim>\<open>isCr\<close> and does not use
  them.
\<close>

definition parseAmount :: "amountInput \<Rightarrow> jsnumber" where
  "parseAmount amountStr =
     (case amountStr of
        AmtNum n \<Rightarrow> jsAbs n
      | AmtStr s \<Rightarrow>
          if s = [] then Fin 0
          else
            (let cleaned = trim s;
                 cleaned = filter (\<lambda>c. \<not> isCurrencyOrSpace c) cleaned;
                 cleaned = filter (\<lambda>c. c \<noteq> 44) cleaned;
                 cleaned = stripDrCr cleaned;
                 num = parseFloat cleaned
             in if num = NaN then Fin 0 else jsAbs num))"

text \<open>
  \<^verbatim>\<open>determineDebitCredit\<close>; the result is the pair of \<^verbatim>\<open>debit\<close> and \<^verbatim>\<open>credit\<close>. The
  built-ins \<^verbatim>\<open>String.prototype.toLowerCase\<close> (a Unicode mapping) and the conversion of a
  number to a string are parameters.
\<close>

definition determineDebitCredit ::
    "(jsstring \<Rightarrow> jsstring) \<Rightarrow> (jsnumber \<Rightarrow> jsstring) \<Rightarrow> amountInput \<Rightarrow> jsstring option \<Rightarrow> jsnumber \<times> jsnumber" where
  "determineDebitCredit toLowerCase numberToString amountStr typeHint =
     (let amount = parseAmount amountStr;
          amountString = toLowerCase (case amountStr of AmtStr s \<Rightarrow> s | AmtNum n \<Rightarrow> numberToString n);
          hint = toLowerCase (case typeHint of None \<Rightarrow> [] | Some h \<Rightarrow> h)
      in if jsIncludes hint (js ''dr'') \<or> jsIncludes hint (js ''debit'') \<or> jsIncludes hint (js ''withdrawal'')
         then (amount, Fin 0)
         else if jsIncludes hint (js ''cr'') \<or> jsIncludes hint (js ''credit'') \<or> jsIncludes hint (js ''deposit'')
         then (Fin 0, amount)
         else if jsIncludes amountString (js ''dr'') \<or> startsWith amountString (js ''-'')
         then (amount, Fin 0)
         else if jsIncludes amountString (js ''cr'')
         then (Fin 0, amount)
         else if (case amountStr of AmtNum n \<Rightarrow> isNegative n | AmtStr s \<Rightarrow> False)
         then (amount, Fin 0)
         else (Fin 0, amount))"

text \<open>A lower-casing of the ASCII letters, for concrete evaluations.\<close>

definition asciiLower :: "jsstring \<Rightarrow> jsstring" where
  "asciiLower s = map (\<lambda>c. if 65 \<le> c \<and> c \<le> 90 then c + 32 else c) s"

text \<open>
  Decimal printing of a natural number, and a conversion of numbers to strings for concrete
  evaluations: it is the built-in conversion on the integers below \<open>10\<^sup>2\<^sup>1\<close> and on the
  three special values, and is only used there.
\<close>

fun natToString :: "nat \<Rightarrow> jsstring" where
  "natToString n = (if n < 10 then [48 + n] else natToString (n div 10) @ [48 + n mod 10])"

declare natToString.simps [simp del]

definition integerToString :: "jsnumber \<Rightarrow> jsstring" where
  "integerToString n =
     (case n of
        NaN \<Rightarrow> js ''NaN''
      | PosInf \<Rightarrow> js ''Infinity''
      | NegInf \<Rightarrow> js ''-Infinity''
      | Fin q \<Rightarrow> (if q < 0 then js ''-'' else []) @ natToString (nat \<lfloor>\<bar>q\<bar>\<rfloor>))"

text \<open>
  Two notions for the statements about \<^verbatim>\<open>parseAmount\<close>: the text of an amount with its
  currency symbols, white space and commas taken out, and the trailing markers
  \<^verbatim>\<open>Dr\<close>, \<^verbatim>\<open>Cr\<close>, \<^verbatim>\<open>Dr.\<close> and \<^verbatim>\<open>Cr.\<close> in either case.
\<close>

definition amountText :: "jsstring \<Rightarrow> jsstring" where
  "amountText s = filter (\<lambda>c. c \<noteq> 44) (filter (\<lambda>c. \<not> isCurrencyOrSpace c) s)"

definition isDrCrSuffix :: "jsstring \<Rightarrow> bool" where
  "isDrCrSuffix z = ((length z = 2 \<or> (length z = 3 \<and> z ! 2 = 46)) \<and> isDC (z ! 0) \<and> isR (z ! 1))"

section \<open>Data model\<close>

text \<open>
  A JSON value as \<^verbatim>\<open>JSON.parse\<close> returns it; the members of an object are kept as an
  association list, looked up with \<open>map_of\<close>.
\<close>

datatype json =
    JNull
  | JBool bool
  | JNum jsnumber
  | JStr jsstring
  | JArr "json list"
  | JObj "(jsstring \<times> json) list"

text \<open>
  \<^verbatim>\<open>Transaction\<close>; the field \<^verbatim>\<open>id\<close> is \<open>id'\<close> here. An optional field is an
  \<open>option\<close>, \<open>None\<close> for \<^verbatim>\<open>undefined\<close>. The streaming route stores whatever value the
  parsed response gave as the bank name, so that field holds a JSON value.
\<close>

record transaction =
  id' :: jsstring
  date :: jsstring
  description :: jsstring
  reference :: "jsstring option"
  debit :: jsnumber
  credit :: jsnumber
  balance :: "jsnumber option"
  currency :: jsstring
  bankName :: "json option"
  accountNumberLast4 :: "jsstring option"




section \<open>Deduplicator (\<^verbatim>\<open>getDuplicateKey\<close>, \<^verbatim>\<open>findDuplicates\<close>)\<close>

definition getDuplicateKey ::
    "(jsstring \<Rightarrow> jsstring) \<Rightarrow> (jsnumber \<Rightarrow> jsstring) \<Rightarrow> transaction \<Rightarrow> jsstring" where
  "getDuplicateKey toLowerCase numberToString tx =
     date tx @ js ''|'' @ trim (toLowerCase (description tx)) @ js ''|''
       @ numberToString (debit tx) @ js ''|'' @ numberToString (credit tx) @ js ''|''
       @ (case reference tx of None \<Rightarrow> [] | Some r \<Rightarrow> r)"

text \<open>
  The loop of \<^verbatim>\<open>findDuplicates\<close> over the transactions, with the map \<^verbatim>\<open>seen\<close> from keys
  to the ids met so far and the set \<^verbatim>\<open>duplicateIds\<close> as its state.
\<close>

fun findDuplicatesLoop ::
    "(transaction \<Rightarrow> jsstring) \<Rightarrow> transaction list \<Rightarrow> (jsstring \<rightharpoonup> jsstring list) \<Rightarrow> jsstring set \<Rightarrow> jsstring set" where
  "findDuplicatesLoop getKey [] seen duplicateIds = duplicateIds"
| "findDuplicatesLoop getKey (tx # txs) seen duplicateIds =
     (let key = getKey tx;
          existing = (case seen key of None \<Rightarrow> [] | Some ids \<Rightarrow> ids);
          duplicateIds' = (if length existing > 0 then insert (id' tx) duplicateIds \<union> set existing
                           else duplicateIds)
      in findDuplicatesLoop getKey txs (seen(key \<mapsto> existing @ [id' tx])) duplicateIds')"

definition findDuplicates ::
    "(jsstring \<Rightarrow> jsstring) \<Rightarrow> (jsnumber \<Rightarrow> jsstring) \<Rightarrow> transaction list \<Rightarrow> jsstring set" where
  "findDuplicates toLowerCase numberToString transactions =
     findDuplicatesLoop (getDuplicateKey toLowerCase numberToString) transactions Map.empty {}"

section \<open>Voucher generator\<close>





















text \<open>
  Two notions for the proofs about \<^verbatim>\<open>findDuplicates\<close>: what the map \<^verbatim>\<open>seen\<close> holds after the
  transactions \<open>pre\<close>, and the ids of the transactions whose key occurs at least twice among
  \<open>pre\<close>. A sample transaction for concrete evaluations.
\<close>

definition seenOf :: "(transaction \<Rightarrow> jsstring) \<Rightarrow> transaction list \<Rightarrow> (jsstring \<rightharpoonup> jsstring list)" where
  "seenOf K pre k = (if filter (\<lambda>t. K t = k) pre = [] then None else Some (map id' (filter (\<lambda>t. K t = k) pre)))"

definition dupOf :: "(transaction \<Rightarrow> jsstring) \<Rightarrow> transaction list \<Rightarrow> jsstring set" where
  "dupOf K l = id' ` {t \<in> set l. 2 \<le> length (filter (\<lambda>u. K u = K t) l)}"

definition sampleTx :: "jsstring \<Rightarrow> jsstring \<Rightarrow> jsstring \<Rightarrow> jsnumber \<Rightarrow> jsnumber \<Rightarrow> transaction" where
  "sampleTx i d text dr cr =
     \<lparr> id' = i, date = d, description = text, reference = None, debit = dr, credit = cr,
       balance = None, currency = js ''INR'', bankName = None, accountNumberLast4 = None \<rparr>"

text \<open>
  Notions for the statements about \<^verbatim>\<open>findDuplicates\<close>. \<open>keyParts\<close> are the five parts that
  \<^verbatim>\<open>getDuplicateKey\<close> joins with \<^verbatim>\<open>|\<close>: the date, the lower-cased and trimmed description,
  the printed debit, the printed credit, and the reference (empty when there is none).
  \<open>separatorFree\<close> says that no part but the last holds the separator. \<open>collidingIds\<close> are
  the ids of the transactions whose key is also the key at another position of the list.
  Two sample lists: in \<open>separatorPair\<close> the two transactions differ in description, debit,
  credit and reference; in \<open>sharedIdList\<close> the third transaction has the id of the first.
\<close>

definition keyParts ::
    "(jsstring \<Rightarrow> jsstring) \<Rightarrow> (jsnumber \<Rightarrow> jsstring) \<Rightarrow> transaction \<Rightarrow> jsstring list" where
  "keyParts toLowerCase numberToString tx =
     [date tx, trim (toLowerCase (description tx)), numberToString (debit tx), numberToString (credit tx),
      (case reference tx of None \<Rightarrow> [] | Some r \<Rightarrow> r)]"

definition separatorFree :: "jsstring list \<Rightarrow> bool" where
  "separatorFree parts = list_all (\<lambda>p. 124 \<notin> set p) (butlast parts)"

definition collidingIds :: "(transaction \<Rightarrow> jsstring) \<Rightarrow> transaction list \<Rightarrow> jsstring set" where
  "collidingIds K txs =
     {id' (txs ! i) | i. i < length txs \<and> (\<exists>j<length txs. j \<noteq> i \<and> K (txs ! j) = K (txs ! i))}"

definition separatorPair :: "transaction list" where
  "separatorPair =
     [(sampleTx (js ''a'') (js ''2024-01-15'') (js ''upi|1'') (Fin 2) (Fin 3)) \<lparr> reference := Some (js ''4'') \<rparr>,
      (sampleTx (js ''b'') (js ''2024-01-15'') (js ''upi'') (Fin 1) (Fin 2)) \<lparr> reference := Some (js ''3|4'') \<rparr>]"

definition sharedIdList :: "transaction list" where
  "sharedIdList =
     [sampleTx (js ''a'') (js ''2024-01-15'') (js ''neft cr'') (Fin 0) (Fin 25000),
      sampleTx (js ''b'') (js ''2024-01-15'') (js ''neft cr'') (Fin 0) (Fin 25000),
      sampleTx (js ''a'') (js ''2024-01-16'') (js ''atm wdl'') (Fin 500) (Fin 0)]"




section \<open>Chunker (\<^verbatim>\<open>splitPdfIntoChunks\<close>)\<close>

text \<open>
  The document is given by its number of pages, and a chunk by the list \<^verbatim>\<open>pageIndices\<close> of
  the pages copied into it. \<open>splitLoop\<close> is the \<^verbatim>\<open>for\<close> loop over \<^verbatim>\<open>startPage\<close>, with the
  array \<^verbatim>\<open>chunks\<close> as its state; a loop that does not end is the value \<open>None\<close>.
\<close>

partial_function (option) splitLoop :: "nat \<Rightarrow> nat \<Rightarrow> nat \<Rightarrow> nat list list \<Rightarrow> nat list list option" where
  "splitLoop totalPages pagesPerChunk startPage chunks =
     (if startPage < totalPages then
        (let endPage = (if startPage + pagesPerChunk > totalPages then totalPages
                        else startPage + pagesPerChunk)
         in if startPage + pagesPerChunk > totalPages \<and> startPage \<ge> totalPages then Some chunks
            else
              (let pageIndices = [startPage..<endPage];
                   chunks' = chunks @ [pageIndices]
               in if endPage = totalPages then Some chunks'
                  else splitLoop totalPages pagesPerChunk (startPage + pagesPerChunk) chunks'))
      else Some chunks)"

definition splitPdfIntoChunks :: "nat \<Rightarrow> nat \<Rightarrow> nat list list option" where
  "splitPdfIntoChunks totalPages pagesPerChunk = splitLoop totalPages pagesPerChunk 0 []"

text \<open>The pages of the chunk with index \<open>i\<close> (counted from 0), for the statements.\<close>

definition chunkPages :: "nat \<Rightarrow> nat \<Rightarrow> nat \<Rightarrow> nat list" where
  "chunkPages totalPages pagesPerChunk i = [i * pagesPerChunk..<min (i * pagesPerChunk + pagesPerChunk) totalPages]"

section \<open>Response recoverer (\<^verbatim>\<open>parseAIResponse\<close>)\<close>

text \<open>
  A thrown \<^verbatim>\<open>Error\<close> is a value holding its message, and a function that may throw returns
  \<open>jsError + 'a\<close>, \<open>Inl\<close> for the throw.
\<close>

datatype jsError = Error jsstring

text \<open>
  \<open>beforeFirst p s\<close> is the part of \<open>s\<close> before the first occurrence of \<open>p\<close>, and
  \<open>afterFirst p s\<close> the part after it; \<open>None\<close> when \<open>p\<close> does not occur.
\<close>

fun beforeFirst :: "jsstring \<Rightarrow> jsstring \<Rightarrow> jsstring option" where
  "beforeFirst p [] = (if p = [] then Some [] else None)"
| "beforeFirst p (c # s) =
     (if startsWith (c # s) p then Some []
      else (case beforeFirst p s of None \<Rightarrow> None | Some b \<Rightarrow> Some (c # b)))"

definition afterFirst :: "jsstring \<Rightarrow> jsstring \<Rightarrow> jsstring option" where
  "afterFirst p s = (case beforeFirst p s of None \<Rightarrow> None | Some b \<Rightarrow> Some (drop (length b + length p) s))"

text \<open>
  The first group of \<^verbatim>\<open>responseText.match(/```(?:json)?\s*([\s\S]*?)```/)\<close>. A match starts
  at the first fence: after it an optional \<^verbatim>\<open>json\<close> and all white space are skipped (neither
  holds a backquote, so giving some of them back finds no other closing fence), and the
  group runs to the next fence. When no fence follows the first one, no later start
  matches either.
\<close>

definition fence :: jsstring where
  "fence = [96, 96, 96]"

definition fenceMatch :: "jsstring \<Rightarrow> jsstring option" where
  "fenceMatch s =
     (case afterFirst fence s of
        None \<Rightarrow> None
      | Some r \<Rightarrow>
          (let r1 = (if startsWith r (js ''json'') then drop 4 r else r);
               r2 = dropWhile isSpace r1
           in beforeFirst fence r2))"

text \<open>
  \<^verbatim>\<open>s.match(/\[[\s\S]*\]/)\<close> and \<^verbatim>\<open>s.match(/\{[\s\S]*\}/)\<close>: from the first opening bracket
  to the last closing bracket after it.
\<close>

definition greedyBetween :: "nat \<Rightarrow> nat \<Rightarrow> jsstring \<Rightarrow> jsstring option" where
  "greedyBetween opening closing s =
     (let r = dropWhile (\<lambda>c. c \<noteq> opening) s;
          t = rev (dropWhile (\<lambda>c. c \<noteq> closing) (rev (drop 1 r)))
      in if r = [] \<or> t = [] then None else Some (opening # t))"

text \<open>
  The brace counting loop of the streaming route: \<open>i\<close> is the index of the head of the
  string, and the result is the pair of \<^verbatim>\<open>startIdx\<close> and \<^verbatim>\<open>endIdx\<close>, each -1 when not set.
\<close>

fun braceScan :: "jsstring \<Rightarrow> nat \<Rightarrow> int \<Rightarrow> int \<Rightarrow> int \<times> int" where
  "braceScan [] i braceCount startIdx = (startIdx, - 1)"
| "braceScan (c # cs) i braceCount startIdx =
     (if c = 123 then braceScan cs (i + 1) (braceCount + 1) (if startIdx = - 1 then int i else startIdx)
      else if c = 125 then
        (if braceCount - 1 = 0 \<and> startIdx \<noteq> - 1 then (startIdx, int i + 1)
         else braceScan cs (i + 1) (braceCount - 1) startIdx)
      else braceScan cs (i + 1) braceCount startIdx)"

definition substring :: "jsstring \<Rightarrow> int \<Rightarrow> int \<Rightarrow> jsstring" where
  "substring s startIdx endIdx = take (nat endIdx - nat startIdx) (drop (nat startIdx) s)"

text \<open>The object \<^verbatim>\<open>{ transactions: v }\<close>.\<close>

definition transactionsObject :: "json \<Rightarrow> json" where
  "transactionsObject v = JObj [(js ''transactions'', v)]"

text \<open>
  \<^verbatim>\<open>parseAIResponse\<close> of the streaming route. The built-in \<^verbatim>\<open>JSON.parse\<close> is the parameter
  \<open>jsonParse\<close>, which returns the value or the message of the \<^verbatim>\<open>SyntaxError\<close> it throws.
\<close>

definition parseAIResponse :: "(jsstring \<Rightarrow> jsstring + json) \<Rightarrow> jsstring \<Rightarrow> jsError + json" where
  "parseAIResponse jsonParse responseText =
     (if responseText = [] \<or> length (trim responseText) = 0 then Inr (transactionsObject (JArr []))
      else
        (let jsonStr = (case fenceMatch responseText of Some g \<Rightarrow> trim g | None \<Rightarrow> responseText);
             (startIdx, endIdx) = braceScan jsonStr 0 0 (- 1);
             jsonStr = (if startIdx \<noteq> - 1 \<and> endIdx \<noteq> - 1 then substring jsonStr startIdx endIdx else jsonStr)
         in case jsonParse jsonStr of
              Inr v \<Rightarrow> Inr v
            | Inl e \<Rightarrow>
               (case greedyBetween 91 93 responseText of
                  Some arrayMatch \<Rightarrow>
                    (case jsonParse arrayMatch of
                       Inr v \<Rightarrow> Inr (transactionsObject v)
                     | Inl e' \<Rightarrow> Inr (transactionsObject (JArr [])))
                | None \<Rightarrow> Inr (transactionsObject (JArr [])))))"

text \<open>
  Two notions for the statements about the streaming route: \<open>jsonCandidate\<close> is the value of
  \<^verbatim>\<open>jsonStr\<close> when \<^verbatim>\<open>JSON.parse\<close> is called, that is the text of the first fenced block,
  trimmed, or else the whole response, cut down to its first balanced pair of braces when
  it has one; \<open>isObject\<close> holds of the JSON objects.
\<close>

definition jsonCandidate :: "jsstring \<Rightarrow> jsstring" where
  "jsonCandidate responseText =
     (let jsonStr = (case fenceMatch responseText of Some g \<Rightarrow> trim g | None \<Rightarrow> responseText);
          (startIdx, endIdx) = braceScan jsonStr 0 0 (- 1)
      in if startIdx \<noteq> - 1 \<and> endIdx \<noteq> - 1 then substring jsonStr startIdx endIdx else jsonStr)"

fun isObject :: "json \<Rightarrow> bool" where
  "isObject (JObj members) = True"
| "isObject v = False"

text \<open>
  \<^verbatim>\<open>parseAIResponse\<close> of the image route (\<^verbatim>\<open>parse-image/route.ts\<close>). \<open>fallbackMatch\<close> is the
  first group of \<^verbatim>\<open>responseText.match(/"transactions"\s*:\s*(\[[\s\S]*?\])/)\<close>, tried at
  every position from the left.
\<close>

definition fallbackAt :: "jsstring \<Rightarrow> jsstring option" where
  "fallbackAt s =
     (if startsWith s ([34] @ js ''transactions'' @ [34]) then
        (case dropWhile isSpace (drop 14 s) of
           [] \<Rightarrow> None
         | c # r \<Rightarrow>
             if c \<noteq> 58 then None
             else (case dropWhile isSpace r of
               [] \<Rightarrow> None
             | d # r' \<Rightarrow>
                 if d \<noteq> 91 then None
                 else (case beforeFirst [93] r' of None \<Rightarrow> None | Some b \<Rightarrow> Some (91 # b @ [93]))))
      else None)"

fun fallbackMatch :: "jsstring \<Rightarrow> jsstring option" where
  "fallbackMatch [] = None"
| "fallbackMatch (c # s) = (case fallbackAt (c # s) of Some g \<Rightarrow> Some g | None \<Rightarrow> fallbackMatch s)"

definition parseAIResponseImage :: "(jsstring \<Rightarrow> jsstring + json) \<Rightarrow> jsstring \<Rightarrow> jsError + json" where
  "parseAIResponseImage jsonParse responseText =
     (if responseText = [] \<or> length (trim responseText) = 0 then Inl (Error (js ''AI returned empty response''))
      else
        (let jsonStr = (case fenceMatch responseText of Some g \<Rightarrow> trim g | None \<Rightarrow> responseText);
             objectMatch = greedyBetween 123 125 jsonStr;
             arrayMatch = (if objectMatch = None then greedyBetween 91 93 jsonStr else None)
         in case arrayMatch of
              Some a \<Rightarrow> (case jsonParse a of Inr v \<Rightarrow> Inr (transactionsObject v) | Inl e \<Rightarrow> Inl (Error e))
            | None \<Rightarrow>
               (case jsonParse (case objectMatch of Some m \<Rightarrow> m | None \<Rightarrow> jsonStr) of
                  Inr v \<Rightarrow> Inr v
                | Inl e \<Rightarrow>
                   (case (case fallbackMatch responseText of
                            Some g \<Rightarrow> (case jsonParse g of Inr v \<Rightarrow> Some v | Inl e' \<Rightarrow> None)
                          | None \<Rightarrow> None) of
                      Some v \<Rightarrow> Inr (transactionsObject v)
                    | None \<Rightarrow> Inl (Error (js ''Could not parse AI response as JSON''))))))"

text \<open>
  A sample \<^verbatim>\<open>JSON.parse\<close> for concrete evaluations: it knows the texts listed here, and
  throws on every other string.
\<close>

definition sampleJsonParse :: "jsstring \<Rightarrow> jsstring + json" where
  "sampleJsonParse s =
     (if s = js ''{}'' then Inr (JObj [])
      else if s = js ''[]'' then Inr (JArr [])
      else if s = js ''null'' then Inr JNull
      else if s = js ''0'' then Inr (JNum (Fin 0))
      else Inl (js ''Unexpected token''))"

section \<open>Extraction orchestrator (the streaming \<^verbatim>\<open>POST\<close> handler)\<close>

text \<open>
  What JavaScript does with the parsed response. \<open>truthy\<close> is the conversion to a
  boolean; \<open>propOf v k\<close> is the property \<^verbatim>\<open>v.k\<close> of a value other than \<^verbatim>\<open>null\<close>, \<open>None\<close>
  for \<^verbatim>\<open>undefined\<close> (the keys read by the handler are properties of objects only);
  \<open>orElse\<close> is \<^verbatim>\<open>a || b\<close> and \<open>coalesce\<close> is \<^verbatim>\<open>a ?? b\<close>; \<open>jsString\<close> is \<^verbatim>\<open>String(v)\<close>, with
  the conversion of a number as a parameter.
\<close>

fun truthy :: "json \<Rightarrow> bool" where
  "truthy JNull = False"
| "truthy (JBool b) = b"
| "truthy (JNum n) = (n \<noteq> NaN \<and> n \<noteq> Fin 0)"
| "truthy (JStr s) = (s \<noteq> [])"
| "truthy (JArr xs) = True"
| "truthy (JObj kvs) = True"

definition truthyOpt :: "json option \<Rightarrow> bool" where
  "truthyOpt v = (case v of None \<Rightarrow> False | Some x \<Rightarrow> truthy x)"

fun propOf :: "json \<Rightarrow> jsstring \<Rightarrow> json option" where
  "propOf (JObj kvs) k = map_of kvs k"
| "propOf v k = None"

definition orElse :: "json option \<Rightarrow> json \<Rightarrow> json" where
  "orElse a b = (case a of None \<Rightarrow> b | Some v \<Rightarrow> if truthy v then v else b)"

definition coalesce :: "json option \<Rightarrow> json \<Rightarrow> json" where
  "coalesce a b = (case a of None \<Rightarrow> b | Some JNull \<Rightarrow> b | Some v \<Rightarrow> v)"

fun joinWith :: "jsstring \<Rightarrow> jsstring list \<Rightarrow> jsstring" where
  "joinWith sep [] = []"
| "joinWith sep [x] = x"
| "joinWith sep (x # y # ys) = x @ sep @ joinWith sep (y # ys)"

fun jsString :: "(jsnumber \<Rightarrow> jsstring) \<Rightarrow> json \<Rightarrow> jsstring" where
  "jsString numberToString JNull = js ''null''"
| "jsString numberToString (JBool b) = (if b then js ''true'' else js ''false'')"
| "jsString numberToString (JNum n) = numberToString n"
| "jsString numberToString (JStr s) = s"
| "jsString numberToString (JArr xs) =
     joinWith (js '','') (map (\<lambda>x. if x = JNull then [] else jsString numberToString x) xs)"
| "jsString numberToString (JObj kvs) = js ''[object Object]''"

text \<open>
  The world outside the handler, for one request: the two extraction services and the
  text extraction, asked for chunk \<open>i\<close> (counted from 0) the \<open>a\<close>-th time (counted from 0),
  the id generator, and the built-ins. An extraction service returns the response text, or
  \<open>Inl\<close> the string \<^verbatim>\<open>error instanceof Error ? error.message : ''\<close> of what it throws.
\<close>

record world =
  processChunkWithGemini :: "nat \<Rightarrow> nat \<Rightarrow> jsstring + jsstring"
  extractPdfText :: "nat \<Rightarrow> nat \<Rightarrow> jsstring"
  processWithGroq :: "nat \<Rightarrow> nat \<Rightarrow> jsstring + jsstring"
  generateId :: "nat \<Rightarrow> nat \<Rightarrow> nat \<Rightarrow> jsstring"
  JSON_parse :: "jsstring \<Rightarrow> jsstring + json"
  Number_toString :: "jsnumber \<Rightarrow> jsstring"
  Date_iso :: "jsstring \<Rightarrow> jsstring option"

datatype streamEvent =
    Progress jsstring nat nat
  | Transactions "transaction list"
  | Complete "jsstring list" "json option"
  | ErrorEvent jsstring

text \<open>
  The state of the handler: the events given to \<^verbatim>\<open>controller.enqueue\<close>, the array
  \<^verbatim>\<open>warnings\<close> and the variable \<^verbatim>\<open>bankName\<close>. Two more fields record what the source does
  not store: the delays waited for, in milliseconds, and the values \<^verbatim>\<open>parsed\<close> took, in
  order.
\<close>

record runState =
  enqueued :: "streamEvent list"
  warnings :: "jsstring list"
  bankNameVar :: "json option"
  waited :: "nat list"
  parsedLog :: "json list"

definition enqueue :: "streamEvent \<Rightarrow> runState \<Rightarrow> runState" where
  "enqueue e st = st\<lparr>enqueued := enqueued st @ [e]\<rparr>"

definition wait :: "nat \<Rightarrow> runState \<Rightarrow> runState" where
  "wait ms st = st\<lparr>waited := waited st @ [ms]\<rparr>"

text \<open>The messages of the \<^verbatim>\<open>TypeError\<close>s of V8 that the handler can meet.\<close>

definition nullPropertyError :: "jsstring \<Rightarrow> jsstring" where
  "nullPropertyError k = js ''Cannot read properties of null (reading '' @ [39] @ k @ [39] @ js '')''"

definition notAFunctionError :: jsstring where
  "notAFunctionError = js ''txArray.map is not a function''"

text \<open>One element of \<^verbatim>\<open>txArray.map(...)\<close>, and the whole map; a \<^verbatim>\<open>null\<close> element throws.\<close>

definition toTransaction :: "world \<Rightarrow> json option \<Rightarrow> jsstring \<Rightarrow> json \<Rightarrow> transaction" where
  "toTransaction W bankNameNow newId tx =
     (let str = jsString (Number_toString W) in
      \<lparr> id' = newId,
        date = parseDate (Date_iso W) (str (orElse (propOf tx (js ''date'')) (JStr []))),
        description = str (orElse (propOf tx (js ''narration'')) (orElse (propOf tx (js ''description'')) (JStr []))),
        reference = Some (str (orElse (propOf tx (js ''txn_no''))
                               (orElse (propOf tx (js ''reference'')) (orElse (propOf tx (js ''ref_no'')) (JStr []))))),
        debit = parseAmount (AmtStr (str (coalesce (propOf tx (js ''debit''))
                               (coalesce (propOf tx (js ''withdrawal'')) (JNum (Fin 0)))))),
        credit = parseAmount (AmtStr (str (coalesce (propOf tx (js ''credit''))
                               (coalesce (propOf tx (js ''deposit'')) (JNum (Fin 0)))))),
        balance = (case propOf tx (js ''balance'') of
                     None \<Rightarrow> None
                   | Some JNull \<Rightarrow> None
                   | Some v \<Rightarrow> Some (parseAmount (AmtStr (str v)))),
        currency = js ''INR'',
        bankName = bankNameNow,
        accountNumberLast4 = None \<rparr>)"

fun mapTransactions :: "world \<Rightarrow> json option \<Rightarrow> (nat \<Rightarrow> jsstring) \<Rightarrow> nat \<Rightarrow> json list \<Rightarrow> jsstring + transaction list" where
  "mapTransactions W bankNameNow ids k [] = Inr []"
| "mapTransactions W bankNameNow ids k (tx # txs) =
     (if tx = JNull then Inl (nullPropertyError (js ''date''))
      else (case mapTransactions W bankNameNow ids (k + 1) txs of
              Inl e \<Rightarrow> Inl e
            | Inr rest \<Rightarrow> Inr (toTransaction W bankNameNow (ids k) tx # rest)))"

text \<open>
  \<^verbatim>\<open>if (!bankName && parsed.bankName) bankName = parsed.bankName\<close>: the property is read
  only when the variable is not set, and reading it throws when \<^verbatim>\<open>parsed\<close> is \<^verbatim>\<open>null\<close>.
\<close>

definition assignBankName :: "json \<Rightarrow> runState \<Rightarrow> jsstring + runState" where
  "assignBankName parsed st =
     (if truthyOpt (bankNameVar st) then Inr st
      else if parsed = JNull then Inl (nullPropertyError (js ''bankName''))
      else if truthyOpt (propOf parsed (js ''bankName''))
           then Inr (st\<lparr>bankNameVar := propOf parsed (js ''bankName'')\<rparr>)
           else Inr st)"

definition chunkTransactionsOf :: "world \<Rightarrow> nat \<Rightarrow> nat \<Rightarrow> json \<Rightarrow> json option \<Rightarrow> jsstring + transaction list" where
  "chunkTransactionsOf W i a parsed bankNameNow =
     (if parsed = JNull then Inl (nullPropertyError (js ''transactions''))
      else (case orElse (propOf parsed (js ''transactions'')) (JArr []) of
              JArr txArray \<Rightarrow> mapTransactions W bankNameNow (generateId W i a) 0 txArray
            | other \<Rightarrow> Inl notAFunctionError))"

text \<open>The response text for chunk \<open>i\<close> at attempt \<open>a\<close>, from the service of the provider.\<close>

definition chunkResponse :: "world \<Rightarrow> jsstring \<Rightarrow> nat \<Rightarrow> nat \<Rightarrow> jsstring + jsstring" where
  "chunkResponse W apiProvider i a =
     (if apiProvider = js ''gemini'' then processChunkWithGemini W i a
      else (let chunkText = extractPdfText W i a in
            if length (trim chunkText) < 20 then Inr ([123, 34] @ js ''transactions'' @ [34] @ js '': []}'')
            else processWithGroq W i a))"

text \<open>
  The body of the \<^verbatim>\<open>try\<close> block for chunk \<open>i\<close> of \<open>totalChunks\<close>: \<open>Inr\<close> the state when it runs to
  its end (the source sets \<^verbatim>\<open>chunkSuccess\<close>), \<open>Inl\<close> the error message and the state when
  something throws.
\<close>

definition tryChunk :: "world \<Rightarrow> jsstring \<Rightarrow> nat \<Rightarrow> nat \<Rightarrow> nat \<Rightarrow> runState \<Rightarrow> (jsstring \<times> runState) + runState" where
  "tryChunk W apiProvider i totalChunks a st =
     (case chunkResponse W apiProvider i a of
        Inl errorMsg \<Rightarrow> Inl (errorMsg, st)
      | Inr responseText \<Rightarrow>
         (case parseAIResponse (JSON_parse W) responseText of
            Inl (Error errorMsg) \<Rightarrow> Inl (errorMsg, st)
          | Inr parsed \<Rightarrow>
             (let st0 = st\<lparr>parsedLog := parsedLog st @ [parsed]\<rparr> in
              case assignBankName parsed st0 of
                Inl errorMsg \<Rightarrow> Inl (errorMsg, st0)
              | Inr st1 \<Rightarrow>
                 (case chunkTransactionsOf W i a parsed (bankNameVar st1) of
                    Inl errorMsg \<Rightarrow> Inl (errorMsg, st1)
                  | Inr chunkTransactions \<Rightarrow>
                     (let st2 = (if length chunkTransactions > 0
                                 then enqueue (Transactions chunkTransactions) st1 else st1);
                          delay = (if apiProvider = js ''gemini'' then 2000 else 5000 :: nat)
                      in if int i < int totalChunks - 1
                         then Inr (wait delay (enqueue
                                (Progress (js ''Waiting '' @ natToString (delay div 1000) @ js ''s for rate limit...'')
                                   (i + 1) totalChunks) st2))
                         else Inr st2)))))"

definition MAX_RETRIES :: nat where
  "MAX_RETRIES = 2"

definition rateLimited :: "jsstring \<Rightarrow> bool" where
  "rateLimited errorMsg =
     (jsIncludes errorMsg (js ''429'') \<or> jsIncludes errorMsg (js ''Quota'') \<or> jsIncludes errorMsg (js ''rate_limit''))"

text \<open>
  The loop \<^verbatim>\<open>while (!chunkSuccess && retries <= MAX_RETRIES)\<close> for chunk \<open>i\<close>. Every call of the
  service so far has failed and has added one to \<^verbatim>\<open>retries\<close>, so the next call is the one
  with that number.
\<close>

function chunkLoop :: "world \<Rightarrow> jsstring \<Rightarrow> nat \<Rightarrow> nat \<Rightarrow> nat \<Rightarrow> runState \<Rightarrow> runState" where
  "chunkLoop W apiProvider i totalChunks retries st =
     (if retries \<le> MAX_RETRIES then
        (case tryChunk W apiProvider i totalChunks retries st of
           Inr st' \<Rightarrow> st'
         | Inl (errorMsg, st') \<Rightarrow>
            if rateLimited errorMsg
            then chunkLoop W apiProvider i totalChunks (retries + 1)
                   (wait 32000 (enqueue (Progress (js ''Rate limited. Waiting 32s...'') (i + 1) totalChunks) st'))
            else if retries + 1 > MAX_RETRIES
            then st'\<lparr>warnings := warnings st' @
                   [js ''Skipped chunk '' @ natToString (i + 1) @ js '' due to errors: '' @ errorMsg]\<rparr>
            else chunkLoop W apiProvider i totalChunks (retries + 1) st')
      else st)"
  by pat_completeness auto
termination
  by (relation "measure (\<lambda>(W, apiProvider, i, totalChunks, retries, st). Suc MAX_RETRIES - retries)") auto

declare chunkLoop.simps [simp del]

definition processChunk :: "world \<Rightarrow> jsstring \<Rightarrow> nat \<Rightarrow> nat \<Rightarrow> runState \<Rightarrow> runState" where
  "processChunk W apiProvider totalChunks i st =
     chunkLoop W apiProvider i totalChunks 0
       (enqueue (Progress (js ''Processing chunk '' @ natToString (i + 1) @ js ''/'' @ natToString totalChunks
                   @ js '' ('' @ apiProvider @ js '')...'') (i + 1) totalChunks) st)"

definition processChunks :: "world \<Rightarrow> jsstring \<Rightarrow> nat \<Rightarrow> runState \<Rightarrow> runState" where
  "processChunks W apiProvider totalChunks st = foldl (\<lambda>s i. processChunk W apiProvider totalChunks i s) st [0..<totalChunks]"

text \<open>
  The function \<^verbatim>\<open>start\<close> of the stream. The document is given by the outcome of loading it:
  its number of pages, or \<open>Inl\<close> the message of the error thrown. Both providers use two
  pages per chunk. The result is the final state, whose field \<open>enqueued\<close> is the stream.
\<close>

definition startState :: runState where
  "startState =
     \<lparr> enqueued = [Progress (js ''Analyzing PDF structure and splitting pages...'') 0 0],
       warnings = [], bankNameVar = None, waited = [], parsedLog = [] \<rparr>"

definition streamStart :: "world \<Rightarrow> jsstring \<Rightarrow> jsstring + nat \<Rightarrow> runState option" where
  "streamStart W apiProvider document =
     (case document of
        Inl msg \<Rightarrow> Some (enqueue (ErrorEvent msg) startState)
      | Inr totalPages \<Rightarrow>
         (case splitPdfIntoChunks totalPages 2 of
            None \<Rightarrow> None
          | Some chunks \<Rightarrow>
             (let st1 = enqueue (Progress (js ''Split PDF into '' @ natToString (length chunks)
                                   @ js '' chunks. Starting processing...'') 0 (length chunks)) startState;
                  st2 = processChunks W apiProvider (length chunks) st1
              in Some (enqueue (Complete (warnings st2) (bankNameVar st2)) st2))))"

text \<open>
  The bank name of the first parsed response that gives a truthy one, for the statements.
\<close>

definition firstBankName :: "json list \<Rightarrow> json option" where
  "firstBankName ps =
     (case find (\<lambda>p. truthyOpt (propOf p (js ''bankName''))) ps of
        None \<Rightarrow> None
      | Some p \<Rightarrow> propOf p (js ''bankName''))"

text \<open>
  The invariant of the handler for the bank name, and two sample worlds for concrete
  evaluations: one whose first service answers the first three calls for a chunk with a
  rate-limit error, and one whose first service answers for chunk 0 with one bank name and
  for every other chunk with another.
\<close>

definition bankInv :: "runState \<Rightarrow> bool" where
  "bankInv st = (bankNameVar st = firstBankName (parsedLog st))"

definition rateLimitedWorld :: world where
  "rateLimitedWorld =
     \<lparr> processChunkWithGemini = (\<lambda>i a. if a < 3 then Inl (js ''429 Too Many Requests'') else Inr (js ''[]'')),
       extractPdfText = (\<lambda>i a. []),
       processWithGroq = (\<lambda>i a. Inr (js ''[]'')),
       generateId = (\<lambda>i a k. natToString k),
       JSON_parse = sampleJsonParse,
       Number_toString = integerToString,
       Date_iso = sampleDate \<rparr>"

definition hdfcText :: jsstring where
  "hdfcText = [123, 34] @ js ''bankName'' @ [34, 58, 34] @ js ''HDFC'' @ [34, 125]"

definition iciciText :: jsstring where
  "iciciText = [123, 34] @ js ''bankName'' @ [34, 58, 34] @ js ''ICICI'' @ [34, 125]"

definition bankWorld :: world where
  "bankWorld =
     \<lparr> processChunkWithGemini = (\<lambda>i a. if i = 0 then Inr hdfcText else Inr iciciText),
       extractPdfText = (\<lambda>i a. []),
       processWithGroq = (\<lambda>i a. Inr (js ''[]'')),
       generateId = (\<lambda>i a k. natToString k),
       JSON_parse = (\<lambda>s. if s = hdfcText then Inr (JObj [(js ''bankName'', JStr (js ''HDFC''))])
                          else if s = iciciText then Inr (JObj [(js ''bankName'', JStr (js ''ICICI''))])
                          else Inl (js ''Unexpected token'')),
       Number_toString = integerToString,
       Date_iso = sampleDate \<rparr>"

chapter \<open>Verification\<close>

section \<open>Properties of strings\<close>

lemma startsWith_iff: "startsWith s p = (\<exists>b. s = p @ b)"
  by (induction s p rule: startsWith.induct) auto

lemma jsIncludes_iff: "jsIncludes s t = (\<exists>a b. s = a @ t @ b)"
proof (induction s)
  case Nil
  then show ?case by auto
next
  case (Cons c s)
  show ?case
  proof
    assume "jsIncludes (c # s) t"
    then show "\<exists>a b. c # s = a @ t @ b"
    proof (simp only: jsIncludes.simps, elim disjE)
      assume "startsWith (c # s) t"
      then obtain b where "c # s = t @ b" by (auto simp: startsWith_iff)
      then have "c # s = [] @ t @ b" by simp
      then show ?thesis by blast
    next
      assume "jsIncludes s t"
      with Cons obtain a b where "s = a @ t @ b" by blast
      then have "c # s = (c # a) @ t @ b" by simp
      then show ?thesis by blast
    qed
  next
    assume "\<exists>a b. c # s = a @ t @ b"
    then obtain a b where e: "c # s = a @ t @ b" by blast
    show "jsIncludes (c # s) t"
    proof (cases a)
      case Nil
      with e have "startsWith (c # s) t" by (auto simp: startsWith_iff)
      then show ?thesis by simp
    next
      case (Cons x a')
      with e have "s = a' @ t @ b" by simp
      with Cons.IH have "jsIncludes s t" by blast
      then show ?thesis by simp
    qed
  qed
qed

section \<open>Properties of date normalization\<close>

lemma isDigit_not_isSpace: "isDigit c \<Longrightarrow> \<not> isSpace c"
  by (auto simp: isDigit_def isSpace_def)

lemma trim_fixed: "s \<noteq> [] \<Longrightarrow> \<not> isSpace (hd s) \<Longrightarrow> \<not> isSpace (last s) \<Longrightarrow> trim s = s"
proof -
  assume a: "s \<noteq> []" "\<not> isSpace (hd s)" "\<not> isSpace (last s)"
  then have "dropWhile isSpace s = s" by (cases s) auto
  moreover from a have "dropWhile isSpace (rev s) = rev s"
    by (cases "rev s") (auto simp: last_rev hd_rev)
  ultimately show ?thesis by (simp add: trim_def)
qed

lemma trim_Nil: "trim [] = []"
  by (simp add: trim_def)

lemma trim_ends: "trim s \<noteq> [] \<Longrightarrow> \<not> isSpace (hd (trim s)) \<and> \<not> isSpace (last (trim s))"
proof -
  assume a: "trim s \<noteq> []"
  let ?u = "dropWhile isSpace s"
  let ?t = "dropWhile isSpace (rev ?u)"
  from a have ne: "?t \<noteq> []" by (simp add: trim_def)
  then have h: "\<not> isSpace (hd ?t)" by (rule hd_dropWhile)
  have une: "?u \<noteq> []"
  proof
    assume e: "?u = []"
    have "?t = []" by (simp only: e rev.simps dropWhile.simps)
    with ne show False by simp
  qed
  then have hu: "\<not> isSpace (hd ?u)" by (rule hd_dropWhile)
  have "rev ?u = takeWhile isSpace (rev ?u) @ ?t" by simp
  then have "?u = rev ?t @ rev (takeWhile isSpace (rev ?u))"
    by (metis rev_append rev_rev_ident)
  then have "hd ?u = hd (rev ?t)" using ne by (metis hd_append2 rev_is_Nil_conv)
  with hu have "\<not> isSpace (hd (rev ?t))" by simp
  then show ?thesis using h ne by (simp add: trim_def hd_rev last_rev)
qed

lemma trim_idem: "trim (trim s) = trim s"
proof (cases "trim s = []")
  case True then show ?thesis by (simp add: trim_Nil)
next
  case False then show ?thesis using trim_ends trim_fixed by blast
qed

lemma isoDateRe_ends: "isoDateRe r \<Longrightarrow> r \<noteq> [] \<and> isDigit (hd r) \<and> isDigit (last r)"
proof -
  assume a: "isoDateRe r"
  then have len: "length r = 10" by (simp add: isoDateRe_def)
  from len have ne: "take 4 r \<noteq> []" "drop 8 r \<noteq> []" by auto
  have "hd (take 4 r) \<in> set (take 4 r)" "last (drop 8 r) \<in> set (drop 8 r)"
    using hd_in_set [OF ne(1)] last_in_set [OF ne(2)] by blast+
  moreover have "hd (take 4 r) = hd r" by (simp add: hd_take)
  moreover have "last (drop 8 r) = last r" using len by (simp add: last_drop)
  ultimately show ?thesis using a len by (auto simp: isoDateRe_def list_all_iff)
qed

lemma isoDateRe_fixed: "isoDateRe r \<Longrightarrow> parseDate J r = r"
proof -
  assume a: "isoDateRe r"
  then have "trim r = r" using isoDateRe_ends [OF a] by (simp add: trim_fixed isDigit_not_isSpace)
  with a isoDateRe_ends [OF a] show ?thesis by (simp add: parseDate_def)
qed

lemma dmyMatch_SomeD:
  assumes "dmyMatch f n s = Some (d, m, y)"
  shows "\<exists>c1 c2. s = d @ c1 # m @ c2 # y \<and> f c1 \<and> f c2 \<and> length y = n
     \<and> list_all isDigit d \<and> list_all isDigit m \<and> list_all isDigit y
     \<and> d \<noteq> [] \<and> length d \<le> 2 \<and> m \<noteq> [] \<and> length m \<le> 2"
proof -
  let ?d = "takeWhile isDigit s" and ?r1 = "dropWhile isDigit s"
  from assms have "\<exists>c1 r2 c2. ?r1 = c1 # r2 \<and> dropWhile isDigit r2 = c2 # y
      \<and> d = ?d \<and> m = takeWhile isDigit r2 \<and> f c1 \<and> f c2 \<and> length y = n \<and> list_all isDigit y
      \<and> d \<noteq> [] \<and> length d \<le> 2 \<and> m \<noteq> [] \<and> length m \<le> 2"
    by (auto simp: dmyMatch_def Let_def split: if_splits list.splits)
  then obtain c1 r2 c2 where r1: "?r1 = c1 # r2" and r3: "dropWhile isDigit r2 = c2 # y"
    and eq: "d = ?d" "m = takeWhile isDigit r2"
    and rest: "f c1" "f c2" "length y = n" "list_all isDigit y" "d \<noteq> []" "length d \<le> 2" "m \<noteq> []" "length m \<le> 2"
    by blast
  have "s = ?d @ ?r1" by simp
  also have "?r1 = c1 # takeWhile isDigit r2 @ dropWhile isDigit r2" using r1 by simp
  finally have "s = d @ c1 # m @ c2 # y" using r3 eq by simp
  moreover have "list_all isDigit d" "list_all isDigit m"
    using eq by (auto simp: list_all_iff dest: set_takeWhileD)
  ultimately show ?thesis using rest by blast
qed

lemma dmyMatch_append:
  assumes "list_all isDigit d" "d \<noteq> []" "length d \<le> 2"
    and "list_all isDigit m" "m \<noteq> []" "length m \<le> 2"
    and "\<not> isDigit c1" "\<not> isDigit c2"
  shows "dmyMatch f n (d @ c1 # m @ c2 # y) =
     (if f c1 \<and> f c2 \<and> length y = n \<and> list_all isDigit y then Some (d, m, y) else None)"
proof -
  have 1: "takeWhile isDigit (d @ c1 # m @ c2 # y) = d" "dropWhile isDigit (d @ c1 # m @ c2 # y) = c1 # m @ c2 # y"
    using assms by (auto simp: list_all_iff takeWhile_append dropWhile_append)
  have 2: "takeWhile isDigit (m @ c2 # y) = m" "dropWhile isDigit (m @ c2 # y) = c2 # y"
    using assms by (auto simp: list_all_iff takeWhile_append dropWhile_append)
  show ?thesis using assms(2,3,5,6) by (auto simp: dmyMatch_def Let_def 1 2)
qed

lemma isoDateRe_build:
  assumes "list_all isDigit y" "length y = 4" "list_all isDigit m" "length m = 2"
    "list_all isDigit d" "length d = 2"
  shows "isoDateRe (y @ 45 # m @ 45 # d)"
  using assms by (simp add: isoDateRe_def nth_append)

lemma padStart2_digits:
  "list_all isDigit m \<Longrightarrow> m \<noteq> [] \<Longrightarrow> length m \<le> 2 \<Longrightarrow> list_all isDigit (padStart2 m) \<and> length (padStart2 m) = 2"
  by (cases m) (auto simp: padStart2_def isDigit_def list_all_iff)


lemma isSep_not_isDigit: "isSep3 c \<Longrightarrow> \<not> isDigit c" "isSep2 c \<Longrightarrow> \<not> isDigit c"
  by (auto simp: isSep3_def isSep2_def isDigit_def)

lemma dmy_iso:
  assumes "list_all isDigit y" "length y = 4"
    and "list_all isDigit m" "m \<noteq> []" "length m \<le> 2"
    and "list_all isDigit d" "d \<noteq> []" "length d \<le> 2"
  shows "isoDateRe (y @ js ''-'' @ padStart2 m @ js ''-'' @ padStart2 d)"
  using isoDateRe_build [of y "padStart2 m" "padStart2 d"] assms padStart2_digits [of m] padStart2_digits [of d]
  by (simp add: js_def)

lemma parseDate_dmy:
  assumes "list_all isDigit d" "d \<noteq> []" "length d \<le> 2"
    and "list_all isDigit m" "m \<noteq> []" "length m \<le> 2"
    and "list_all isDigit y" "y \<noteq> []"
    and "\<not> isDigit c1" "\<not> isDigit c2"
  shows "trim (d @ c1 # m @ c2 # y) = d @ c1 # m @ c2 # y"
proof -
  have "hd (d @ c1 # m @ c2 # y) = hd d" "last (d @ c1 # m @ c2 # y) = last y"
    using assms by auto
  moreover have "isDigit (hd d)" "isDigit (last y)"
    using assms hd_in_set [of d] last_in_set [of y] by (auto simp: list_all_iff)
  ultimately show ?thesis by (simp add: trim_fixed isDigit_not_isSpace)
qed

lemma parseDate_two_digit_year_aux:
  assumes "list_all isDigit d" "d \<noteq> []" "length d \<le> 2"
    and "list_all isDigit m" "m \<noteq> []" "length m \<le> 2"
    and "list_all isDigit y" "length y = 2"
    and "isSep2 c1" "isSep2 c2"
  shows "parseDate J (d @ c1 # m @ c2 # y) =
     (if 50 < decimalValue y then js ''19'' else js ''20'') @ y @ js ''-'' @ padStart2 m @ js ''-'' @ padStart2 d"
proof -
  let ?s = "d @ c1 # m @ c2 # y"
  have nd: "\<not> isDigit c1" "\<not> isDigit c2" using assms isSep_not_isDigit by blast+
  have y: "y \<noteq> []" using assms by auto
  have t: "trim ?s = ?s" using parseDate_dmy [OF assms(1-7) y nd] .
  have "length ?s \<le> 8" using assms by simp
  then have ni: "\<not> isoDateRe ?s" by (simp add: isoDateRe_def)
  have m3: "dmyMatch isSep3 4 ?s = None"
    using dmyMatch_append [OF assms(1-6) nd, of isSep3 4 y] assms by simp
  have m2: "dmyMatch isSep2 2 ?s = Some (d, m, y)"
    using dmyMatch_append [OF assms(1-6) nd, of isSep2 2 y] assms by simp
  show ?thesis by (simp add: parseDate_def t ni m3 m2)
qed

lemma parseDate_four_digit_year_aux:
  assumes "list_all isDigit d" "d \<noteq> []" "length d \<le> 2"
    and "list_all isDigit m" "m \<noteq> []" "length m \<le> 2"
    and "list_all isDigit y" "length y = 4"
    and "isSep3 c1" "isSep3 c2"
  shows "parseDate J (d @ c1 # m @ c2 # y) = y @ js ''-'' @ padStart2 m @ js ''-'' @ padStart2 d"
proof -
  let ?s = "d @ c1 # m @ c2 # y"
  have nd: "\<not> isDigit c1" "\<not> isDigit c2" using assms isSep_not_isDigit by blast+
  have y: "y \<noteq> []" using assms by auto
  have t: "trim ?s = ?s" using parseDate_dmy [OF assms(1-7) y nd] .
  have m3: "dmyMatch isSep3 4 ?s = Some (d, m, y)"
    using dmyMatch_append [OF assms(1-6) nd, of isSep3 4 y] assms by simp
  show ?thesis
  proof (cases "isoDateRe ?s")
    case True
    then have "\<not> isDigit (?s ! 4)" "\<not> isDigit (?s ! 7)" by (auto simp: isoDateRe_def isDigit_def)
    moreover have "length ?s = 10" using True by (simp add: isoDateRe_def)
    then have "length d + length m = 4" using assms by simp
    then have "length d = 2" "length m = 2" using assms by auto
    then have "?s ! 4 = m ! 1" using assms by (simp add: nth_append nth_Cons')
    moreover have "isDigit (m ! 1)" using assms \<open>length m = 2\<close> by (simp add: list_all_length)
    ultimately show ?thesis by simp
  next
    case False
    then show ?thesis by (simp add: parseDate_def t m3)
  qed
qed

lemma dmyMatch_nondigit: "\<not> isDigit c \<Longrightarrow> dmyMatch f n (c # t) = None"
  by (simp add: dmyMatch_def)

lemma extIso_fixed:
  assumes "extIsoDateRe r" "J r = Some r"
  shows "parseDate J r = r"
proof -
  from assms have len: "length r = 13" by (simp add: extIsoDateRe_def)
  then obtain c t where r: "r = c # t" by (cases r) auto
  with assms have c: "c = 43 \<or> c = 45" by (simp add: extIsoDateRe_def)
  then have cd: "\<not> isDigit c" "\<not> isSpace c" by (auto simp: isDigit_def isSpace_def)
  from len have ne: "drop 11 r \<noteq> []" by auto
  have "last (drop 11 r) = last r" using len by (simp add: last_drop)
  then have "isDigit (last r)" using last_in_set [OF ne] assms by (auto simp: extIsoDateRe_def list_all_iff)
  then have t: "trim r = r" using r cd by (simp add: trim_fixed isDigit_not_isSpace)
  have ni: "\<not> isoDateRe r" using len by (simp add: isoDateRe_def)
  have m: "dmyMatch isSep3 4 r = None" "dmyMatch isSep2 2 r = None"
    using r cd dmyMatch_nondigit by auto
  have "r \<noteq> []" using len by auto
  then show ?thesis using assms(2) by (simp add: parseDate_def t ni m)
qed

lemma parseDate_idem_aux:
  assumes J: "isoDateBuiltin J"
  shows "parseDate J (parseDate J s) = parseDate J s"
proof (cases "s = []")
  case True
  then show ?thesis by (simp add: parseDate_def)
next
  case ne: False
  let ?c = "trim s"
  show ?thesis
  proof (cases "isoDateRe ?c")
    case True
    then have "parseDate J s = ?c" using ne by (simp add: parseDate_def)
    then show ?thesis using isoDateRe_fixed [OF True] by simp
  next
    case ni: False
    show ?thesis
    proof (cases "dmyMatch isSep3 4 ?c")
      case (Some t)
      obtain d m y where t: "t = (d, m, y)" by (cases t) auto
      from dmyMatch_SomeD [of isSep3 4 ?c d m y] Some t
      have "isoDateRe (y @ js ''-'' @ padStart2 m @ js ''-'' @ padStart2 d)"
        by (auto intro: dmy_iso)
      moreover have "parseDate J s = y @ js ''-'' @ padStart2 m @ js ''-'' @ padStart2 d"
        using ne ni Some t by (simp add: parseDate_def)
      ultimately show ?thesis using isoDateRe_fixed by simp
    next
      case n3: None
      show ?thesis
      proof (cases "dmyMatch isSep2 2 ?c")
        case (Some t)
        obtain d m y where t: "t = (d, m, y)" by (cases t) auto
        let ?fy = "(if 50 < decimalValue y then js ''19'' else js ''20'') @ y"
        from dmyMatch_SomeD [of isSep2 2 ?c d m y] Some t
        have f: "list_all isDigit y" "length y = 2" "list_all isDigit m" "m \<noteq> []" "length m \<le> 2"
          "list_all isDigit d" "d \<noteq> []" "length d \<le> 2" by auto
        then have "list_all isDigit ?fy" "length ?fy = 4" by (auto simp: js_def isDigit_def)
        then have "isoDateRe (?fy @ js ''-'' @ padStart2 m @ js ''-'' @ padStart2 d)"
          using f by (intro dmy_iso)
        moreover have "parseDate J s = ?fy @ js ''-'' @ padStart2 m @ js ''-'' @ padStart2 d"
          using ne ni n3 Some t by (simp add: parseDate_def)
        ultimately show ?thesis using isoDateRe_fixed by simp
      next
        case n2: None
        show ?thesis
        proof (cases "J ?c")
          case (Some r)
          then have p: "parseDate J s = r" using ne ni n3 n2 by (simp add: parseDate_def)
          from J Some have "isoDateRe r \<or> (extIsoDateRe r \<and> J r = Some r)"
            unfolding isoDateBuiltin_def by blast
          then have "parseDate J r = r" using isoDateRe_fixed extIso_fixed by blast
          with p show ?thesis by simp
        next
          case None
          then have p: "parseDate J s = ?c" using ne ni n3 n2 by (simp add: parseDate_def)
          have "parseDate J ?c = ?c"
            using ni n3 n2 None by (simp add: parseDate_def trim_idem)
          with p show ?thesis by simp
        qed
      qed
    qed
  qed
qed


lemma isDigit_shape: "isDigit c \<Longrightarrow> \<exists>k. c = 48 + k \<and> k \<le> 9"
  by (rule exI [of _ "c - 48"]) (auto simp add: isDigit_def)

lemma len12_shape: "a \<noteq> [] \<Longrightarrow> length a \<le> 2 \<Longrightarrow> (\<exists>p. a = [p]) \<or> (\<exists>p q. a = [p, q])"
  by (cases a; cases "tl a") auto

lemma decimalValue_1: "decimalValue [48 + k] = k"
  by (simp add: decimalValue_def)

lemma decimalValue_2: "decimalValue [48 + k, 48 + l] = 10 * k + l"
  by (simp add: decimalValue_def)

lemma padStart2_1: "padStart2 [c] = [48, c]"
  by (simp add: padStart2_def)

lemma padStart2_2: "padStart2 [c, e] = [c, e]"
  by (simp add: padStart2_def)

lemma digits12_shape:
  assumes "list_all isDigit a" "a \<noteq> []" "length a \<le> 2"
  shows "(\<exists>k\<le>9. a = [48 + k] \<and> decimalValue a = k \<and> padStart2 a = [48, 48 + k])
     \<or> (\<exists>k\<le>9. \<exists>l\<le>9. a = [48 + k, 48 + l] \<and> decimalValue a = 10 * k + l \<and> padStart2 a = a)"
proof -
  from len12_shape [OF assms(2,3)] show ?thesis
  proof
    assume "\<exists>p. a = [p]"
    then obtain p where a: "a = [p]" by blast
    with assms(1) have "isDigit p" by simp
    then obtain k where "p = 48 + k" "k \<le> 9" using isDigit_shape by blast
    with a show ?thesis by (simp only: decimalValue_1 padStart2_1) blast
  next
    assume "\<exists>p q. a = [p, q]"
    then obtain p q where a: "a = [p, q]" by blast
    with assms(1) have "isDigit p" "isDigit q" by simp_all
    then obtain k l where "p = 48 + k" "k \<le> 9" "q = 48 + l" "l \<le> 9"
      using isDigit_shape [of p] isDigit_shape [of q] by blast
    with a show ?thesis by (simp only: decimalValue_2 padStart2_2) blast
  qed
qed


lemma padStart2_decimal:
  assumes "list_all isDigit a" "a \<noteq> []" "length a \<le> 2"
  shows "padStart2 a = [48 + decimalValue a div 10, 48 + decimalValue a mod 10]"
  using digits12_shape [OF assms]
proof (elim disjE exE conjE)
  fix k assume "k \<le> 9" "a = [48 + k]" "decimalValue a = k" "padStart2 a = [48, 48 + k]"
  then show ?thesis by simp
next
  fix k l assume "k \<le> 9" "l \<le> 9" "a = [48 + k, 48 + l]" "decimalValue a = 10 * k + l" "padStart2 a = a"
  then show ?thesis by simp
qed

lemma padStart2_value:
  assumes "list_all isDigit a" "a \<noteq> []" "length a \<le> 2"
    and "list_all isDigit b" "b \<noteq> []" "length b \<le> 2"
    and "decimalValue a = decimalValue b"
  shows "padStart2 a = padStart2 b"
  by (simp only: padStart2_decimal [OF assms(1-3)] padStart2_decimal [OF assms(4-6)] assms(7))


lemma sampleDate_builtin: "isoDateBuiltin sampleDate"
  by (auto simp: isoDateBuiltin_def sampleDate_def js_def isoDateRe_def extIsoDateRe_def isDigit_def
      split: if_splits)

text \<open>
  Claim C5, as the code has it: a date in the two-digit-year form, one or two digits of day
  and of month and two digits of year, separated by \<^verbatim>\<open>/\<close> or \<^verbatim>\<open>-\<close>, is given the
  century \<^verbatim>\<open>19\<close> when the year is greater than 50 and the century \<^verbatim>\<open>20\<close>
  otherwise, so that the years 00 to 50 fall in the 2000s and 51 to 99 in the 1900s.
\<close>

theorem parseDate_two_digit_year:
  assumes "list_all isDigit d" "d \<noteq> []" "length d \<le> 2"
    and "list_all isDigit m" "m \<noteq> []" "length m \<le> 2"
    and "list_all isDigit y" "length y = 2"
    and "isSep2 c1" "isSep2 c2"
  shows "parseDate jsDate (d @ c1 # m @ c2 # y) =
     (if 50 < decimalValue y then js ''19'' else js ''20'') @ y @ js ''-'' @ padStart2 m @ js ''-'' @ padStart2 d"
  using assms by (rule parseDate_two_digit_year_aux)

theorem parseDate_two_digit_year_witness:
  "parseDate sampleDate (js ''7/3/50'') = js ''2050-03-07''
   \<and> parseDate sampleDate (js ''7-3-51'') = js ''1951-03-07''"
  using parseDate_two_digit_year [of "js ''7''" "js ''3''" "js ''50''" 47 47 sampleDate]
    parseDate_two_digit_year [of "js ''7''" "js ''3''" "js ''51''" 45 45 sampleDate]
  by (simp add: js_def isDigit_def isSep2_def decimalValue_def padStart2_def)

text \<open>
  The year 50 itself is put in the 2000s, not in the 1900s.
\<close>

theorem parseDate_year_50_counterexample:
  "parseDate sampleDate (js ''1/2/50'') = js ''2050-02-01''
   \<and> parseDate sampleDate (js ''1/2/50'') \<noteq> js ''1950-02-01''"
  by (simp add: parseDate_def js_def trim_def isSpace_def isoDateRe_def dmyMatch_def isDigit_def
      isSep3_def isSep2_def decimalValue_def padStart2_def)

text \<open>
  Claim C7: \<^verbatim>\<open>parseDate\<close> is idempotent on every string, for a \<^verbatim>\<open>Date\<close> built-in
  whose ISO date part has one of the two ECMAScript forms; and the forms
  \<^verbatim>\<open>D/M/YYYY\<close> and \<^verbatim>\<open>D-M-YYYY\<close> of one calendar date (the same day number, month
  number and year, each written with or without a leading zero) normalize to the same
  \<^verbatim>\<open>YYYY-MM-DD\<close> string.
\<close>

theorem parseDate_idempotent:
  "(isoDateBuiltin jsDate \<longrightarrow> parseDate jsDate (parseDate jsDate s) = parseDate jsDate s)
   \<and> (list_all isDigit d1 \<and> d1 \<noteq> [] \<and> length d1 \<le> 2 \<and> list_all isDigit d2 \<and> d2 \<noteq> [] \<and> length d2 \<le> 2
      \<and> list_all isDigit m1 \<and> m1 \<noteq> [] \<and> length m1 \<le> 2 \<and> list_all isDigit m2 \<and> m2 \<noteq> [] \<and> length m2 \<le> 2
      \<and> list_all isDigit y \<and> length y = 4
      \<and> decimalValue d1 = decimalValue d2 \<and> decimalValue m1 = decimalValue m2
      \<longrightarrow> parseDate jsDate (d1 @ js ''/'' @ m1 @ js ''/'' @ y) = parseDate jsDate (d2 @ js ''-'' @ m2 @ js ''-'' @ y)
        \<and> isoDateRe (parseDate jsDate (d1 @ js ''/'' @ m1 @ js ''/'' @ y)))"
proof (intro conjI impI; (elim conjE)?)
  assume "isoDateBuiltin jsDate"
  then show "parseDate jsDate (parseDate jsDate s) = parseDate jsDate s"
    by (rule parseDate_idem_aux)
next
  assume a: "list_all isDigit d1" "d1 \<noteq> []" "length d1 \<le> 2"
    and b: "list_all isDigit d2" "d2 \<noteq> []" "length d2 \<le> 2"
    and c: "list_all isDigit m1" "m1 \<noteq> []" "length m1 \<le> 2"
    and d: "list_all isDigit m2" "m2 \<noteq> []" "length m2 \<le> 2"
    and y: "list_all isDigit y" "length y = 4"
    and v: "decimalValue d1 = decimalValue d2" "decimalValue m1 = decimalValue m2"
  have s: "isSep3 47" "isSep3 45" by (simp_all add: isSep3_def)
  have 1: "parseDate jsDate (d1 @ js ''/'' @ m1 @ js ''/'' @ y) = y @ js ''-'' @ padStart2 m1 @ js ''-'' @ padStart2 d1"
    using parseDate_four_digit_year_aux [OF a c y s(1) s(1), of jsDate] by (simp add: js_def)
  have 2: "parseDate jsDate (d2 @ js ''-'' @ m2 @ js ''-'' @ y) = y @ js ''-'' @ padStart2 m2 @ js ''-'' @ padStart2 d2"
    using parseDate_four_digit_year_aux [OF b d y s(2) s(2), of jsDate] by (simp add: js_def)
  have 3: "padStart2 d1 = padStart2 d2" "padStart2 m1 = padStart2 m2"
    using padStart2_value [OF a b v(1)] padStart2_value [OF c d v(2)] by simp_all
  show "parseDate jsDate (d1 @ js ''/'' @ m1 @ js ''/'' @ y) = parseDate jsDate (d2 @ js ''-'' @ m2 @ js ''-'' @ y)"
    by (simp only: 1 2 3)
  show "isoDateRe (parseDate jsDate (d1 @ js ''/'' @ m1 @ js ''/'' @ y))"
    using dmy_iso [OF y c a] by (simp only: 1)
qed

theorem parseDate_idempotent_witness:
  "isoDateBuiltin sampleDate
   \<and> parseDate sampleDate (js ''Jan 5, 2024'') = js ''2024-01-05''
   \<and> parseDate sampleDate (parseDate sampleDate (js ''Jan 5, 2024'')) = parseDate sampleDate (js ''Jan 5, 2024'')
   \<and> parseDate sampleDate (js ''5/6/2024'') = parseDate sampleDate (js ''05-06-2024'')"
proof -
  have e: "parseDate sampleDate (js ''Jan 5, 2024'') = js ''2024-01-05''"
    by (simp add: parseDate_def sampleDate_def js_def trim_def isSpace_def isoDateRe_def dmyMatch_def isDigit_def)
  show ?thesis
    using sampleDate_builtin e
      parseDate_idempotent [of sampleDate "js ''Jan 5, 2024''" "js ''5''" "js ''05''" "js ''6''" "js ''06''" "js ''2024''"]
    by (simp add: js_def isDigit_def decimalValue_def)
qed

section \<open>Properties of amount parsing\<close>

lemma takeWhile_stop: "\<not> P c \<Longrightarrow> takeWhile P (x @ c # y) = takeWhile P x"
  by (induction x) auto

lemma dropWhile_stop: "\<not> P c \<Longrightarrow> dropWhile P (x @ c # y) = dropWhile P x @ c # y"
  by (induction x) auto

lemma isDC_facts:
  assumes "isDC c"
  shows "\<not> isSpace c" "\<not> isDigit c" "c \<noteq> 45" "c \<noteq> 43" "c \<noteq> 46" "c \<noteq> 101" "c \<noteq> 69"
    "c \<notin> set (js ''Infinity'')"
  using assms by (auto simp: isDC_def isSpace_def isDigit_def js_def)

lemma exponentPart_stop:
  assumes "isDC c"
  shows "exponentPart (r @ c # y) = exponentPart r"
proof (cases r)
  case Nil
  then show ?thesis using isDC_facts [OF assms] by (simp add: exponentPart_def)
next
  case r: (Cons a t)
  show ?thesis
  proof (cases t)
    case Nil
    then show ?thesis using r isDC_facts [OF assms] by (simp add: exponentPart_def)
  next
    case (Cons b u)
    then show ?thesis using r isDC_facts(2) [OF assms]
      by (simp add: exponentPart_def takeWhile_stop)
  qed
qed

lemma take8_stop:
  assumes "isDC c"
  shows "(take 8 (u @ c # y) = js ''Infinity'') = (take 8 u = js ''Infinity'')"
proof (cases "8 \<le> length u")
  case True
  then show ?thesis by simp
next
  case False
  then have l: "length u < 8" by simp
  then have "take 8 u \<noteq> js ''Infinity''" by (auto simp: js_def)
  moreover have "take 8 (u @ c # y) \<noteq> js ''Infinity''"
  proof
    assume e: "take 8 (u @ c # y) = js ''Infinity''"
    have "c \<in> set (take 8 (u @ c # y))" using l by (simp add: take_Cons')
    with e isDC_facts(8) [OF assms] show False by simp
  qed
  ultimately show ?thesis by simp
qed

lemma sign_stop:
  "c \<noteq> 45 \<Longrightarrow> c \<noteq> 43 \<Longrightarrow>
   (if t @ c # y \<noteq> [] \<and> (hd (t @ c # y) = 45 \<or> hd (t @ c # y) = 43) then tl (t @ c # y) else t @ c # y)
     = (if t \<noteq> [] \<and> (hd t = 45 \<or> hd t = 43) then tl t else t) @ c # y"
  by (cases t) auto

lemma hd_stop: "c \<noteq> k \<Longrightarrow> (t @ c # y \<noteq> [] \<and> hd (t @ c # y) = k) = (t \<noteq> [] \<and> hd t = k)"
  by (cases t) auto

lemma parseFloat_stop:
  assumes "isDC c"
  shows "parseFloat (x @ c # y) = parseFloat x"
proof -
  note f = isDC_facts [OF assms]
  let ?t = "dropWhile isSpace x"
  define u where "u = (if ?t \<noteq> [] \<and> (hd ?t = 45 \<or> hd ?t = 43) then tl ?t else ?t)"
  let ?r1 = "dropWhile isDigit u"
  have A: "dropWhile isSpace (x @ c # y) = ?t @ c # y" using f by (simp add: dropWhile_stop)
  have B: "(if ?t @ c # y \<noteq> [] \<and> (hd (?t @ c # y) = 45 \<or> hd (?t @ c # y) = 43) then tl (?t @ c # y) else ?t @ c # y) = u @ c # y"
    unfolding u_def using f by (intro sign_stop)
  have N: "(?t @ c # y \<noteq> [] \<and> hd (?t @ c # y) = 45) = (?t \<noteq> [] \<and> hd ?t = 45)"
    using f by (intro hd_stop)
  have D: "takeWhile isDigit (u @ c # y) = takeWhile isDigit u" "dropWhile isDigit (u @ c # y) = ?r1 @ c # y"
    using f by (simp_all add: takeWhile_stop dropWhile_stop)
  have H: "(?r1 @ c # y \<noteq> [] \<and> hd (?r1 @ c # y) = 46) = (?r1 \<noteq> [] \<and> hd ?r1 = 46)"
    using f by (intro hd_stop)
  have T: "?r1 \<noteq> [] \<Longrightarrow> tl (?r1 @ c # y) = tl ?r1 @ c # y" by simp
  show ?thesis
    unfolding parseFloat_def Let_def A B N
    unfolding u_def [symmetric] take8_stop [OF assms] D H
    using f(2) T by (auto simp: takeWhile_stop dropWhile_stop exponentPart_stop [OF assms])
qed


lemma filter_dropWhile: "(\<And>c. Q c \<Longrightarrow> \<not> P c) \<Longrightarrow> filter P (dropWhile Q s) = filter P s"
  by (induction s) auto

lemma filter_trim: "(\<And>c. isSpace c \<Longrightarrow> \<not> P c) \<Longrightarrow> filter P (trim s) = filter P s"
proof -
  assume a: "\<And>c. isSpace c \<Longrightarrow> \<not> P c"
  have "filter P (trim s) = rev (filter P (dropWhile isSpace (rev (dropWhile isSpace s))))"
    by (simp add: trim_def rev_filter)
  also have "\<dots> = rev (filter P (rev (dropWhile isSpace s)))"
    using a by (simp add: filter_dropWhile)
  also have "\<dots> = filter P (dropWhile isSpace s)" by (simp add: rev_filter)
  also have "\<dots> = filter P s" using a by (simp add: filter_dropWhile)
  finally show ?thesis .
qed

lemma amountText_trim:
  "filter (\<lambda>c. c \<noteq> 44) (filter (\<lambda>c. \<not> isCurrencyOrSpace c) (trim s)) = amountText s"
  by (simp add: amountText_def filter_trim isCurrencyOrSpace_def)

lemma stripDrCrRev_shape: "\<exists>z. s = z @ stripDrCrRev s \<and> (z = [] \<or> isDC (last z))"
  by (induction s rule: stripDrCrRev.induct) auto

lemma stripDrCr_shape: "\<exists>z. s = stripDrCr s @ z \<and> (z = [] \<or> isDC (hd z))"
proof -
  from stripDrCrRev_shape [of "rev s"] obtain z
    where z: "rev s = z @ stripDrCrRev (rev s)" "z = [] \<or> isDC (last z)" by blast
  from z(1) have "s = stripDrCr s @ rev z"
    by (metis rev_append rev_rev_ident stripDrCr_def)
  moreover have "rev z = [] \<or> isDC (hd (rev z))" using z(2) by (auto simp: hd_rev)
  ultimately show ?thesis by blast
qed

lemma parseFloat_stripDrCr: "parseFloat (stripDrCr s) = parseFloat s"
proof -
  from stripDrCr_shape [of s] obtain z where z: "s = stripDrCr s @ z" "z = [] \<or> isDC (hd z)" by blast
  show ?thesis
  proof (cases z)
    case Nil
    with z(1) show ?thesis by simp
  next
    case (Cons c y)
    with z have "isDC c" "s = stripDrCr s @ c # y" by auto
    then show ?thesis using parseFloat_stop [of c "stripDrCr s" y] by simp
  qed
qed

lemma parseFloat_Nil: "parseFloat [] = NaN"
  by (simp add: parseFloat_def js_def)

lemma parseAmount_text:
  "parseAmount (AmtStr s) = (if parseFloat (amountText s) = NaN then Fin 0 else jsAbs (parseFloat (amountText s)))"
proof (cases "s = []")
  case True
  then show ?thesis by (simp add: parseAmount_def amountText_def parseFloat_Nil)
next
  case False
  then show ?thesis
    unfolding parseAmount_def Let_def amountText_trim parseFloat_stripDrCr by simp
qed

lemma amountText_insert:
  "isCurrencyOrSpace c \<or> c = 44 \<Longrightarrow> amountText (a @ c # b) = amountText (a @ b)"
  by (auto simp: amountText_def)

lemma isDrCrSuffix_facts:
  assumes "isDrCrSuffix z"
  shows "\<exists>c y. z = c # y \<and> isDC c" and "amountText z = z"
proof -
  from assms have "(\<exists>a b. z = [a, b] \<and> isDC a \<and> isR b) \<or> (\<exists>a b. z = [a, b, 46] \<and> isDC a \<and> isR b)"
    unfolding isDrCrSuffix_def
    by (cases z; cases "tl z"; cases "tl (tl z)") auto
  then show "\<exists>c y. z = c # y \<and> isDC c" and "amountText z = z"
    by (auto simp: amountText_def isDC_def isR_def isCurrencyOrSpace_def isSpace_def)
qed

lemma amountText_append: "amountText (a @ b) = amountText a @ amountText b"
  by (simp add: amountText_def)

lemma parseAmount_suffix:
  assumes "isDrCrSuffix z"
  shows "parseAmount (AmtStr (s @ z)) = parseAmount (AmtStr s)"
proof -
  from isDrCrSuffix_facts [OF assms] obtain c y where z: "z = c # y" "isDC c" "amountText z = z" by blast
  have "parseFloat (amountText (s @ z)) = parseFloat (amountText s @ c # y)"
    using z by (simp add: amountText_append)
  also have "\<dots> = parseFloat (amountText s)" using z(2) by (rule parseFloat_stop)
  finally show ?thesis by (simp add: parseAmount_text)
qed

lemmas amt_eval = parseAmount_def parseFloat_def exponentPart_def stripDrCr_def isDC_def isR_def
  isCurrencyOrSpace_def trim_def isSpace_def isDigit_def decimalValue_def js_def

text \<open>
  Claim C8: \<^verbatim>\<open>parseAmount\<close> gives 100000 for \<^verbatim>\<open>1,00,000\<close> (Indian grouping) and for
  \<^verbatim>\<open>100,000\<close> (Western grouping), 5000 for \<^verbatim>\<open>-5000\<close> and for \<^verbatim>\<open>5000 Cr\<close>, and 0 for
  \<^verbatim>\<open>abc\<close> and for the empty string. In general a currency symbol, a white space or a comma
  anywhere in the input does not change the result, nor does a trailing \<^verbatim>\<open>Dr\<close> or
  \<^verbatim>\<open>Cr\<close> marker; when the remaining text does not start with a number the result is 0, and
  when it reads as the number \<open>q\<close> the result is the absolute value of \<open>q\<close>.
\<close>

theorem parseAmount_spec:
  "parseAmount (AmtStr (js ''1,00,000'')) = Fin 100000
   \<and> parseAmount (AmtStr (js ''100,000'')) = Fin 100000
   \<and> parseAmount (AmtStr (js ''-5000'')) = Fin 5000
   \<and> parseAmount (AmtStr (js ''5000 Cr'')) = Fin 5000
   \<and> parseAmount (AmtStr (js ''abc'')) = Fin 0
   \<and> parseAmount (AmtStr []) = Fin 0
   \<and> (isCurrencyOrSpace c \<or> c = 44 \<longrightarrow> parseAmount (AmtStr (a @ c # b)) = parseAmount (AmtStr (a @ b)))
   \<and> (isDrCrSuffix z \<longrightarrow> parseAmount (AmtStr (s @ z)) = parseAmount (AmtStr s))
   \<and> (parseFloat (amountText s) = NaN \<longrightarrow> parseAmount (AmtStr s) = Fin 0)
   \<and> (parseFloat (amountText s) = Fin q \<longrightarrow> parseAmount (AmtStr s) = Fin \<bar>q\<bar>)"
proof (intro conjI impI)
  show "parseAmount (AmtStr (js ''1,00,000'')) = Fin 100000" by (simp add: amt_eval)
  show "parseAmount (AmtStr (js ''100,000'')) = Fin 100000" by (simp add: amt_eval)
  show "parseAmount (AmtStr (js ''-5000'')) = Fin 5000" by (simp add: amt_eval)
  show "parseAmount (AmtStr (js ''5000 Cr'')) = Fin 5000" by (simp add: amt_eval)
  show "parseAmount (AmtStr (js ''abc'')) = Fin 0" by (simp add: amt_eval)
  show "parseAmount (AmtStr []) = Fin 0" by (simp add: parseAmount_def)
next
  assume "isCurrencyOrSpace c \<or> c = 44"
  then show "parseAmount (AmtStr (a @ c # b)) = parseAmount (AmtStr (a @ b))"
    by (simp only: parseAmount_text amountText_insert)
next
  assume "isDrCrSuffix z"
  then show "parseAmount (AmtStr (s @ z)) = parseAmount (AmtStr s)" by (rule parseAmount_suffix)
next
  assume "parseFloat (amountText s) = NaN"
  then show "parseAmount (AmtStr s) = Fin 0" by (simp add: parseAmount_text)
next
  assume "parseFloat (amountText s) = Fin q"
  then show "parseAmount (AmtStr s) = Fin \<bar>q\<bar>" by (simp add: parseAmount_text)
qed

theorem parseAmount_spec_witness:
  "parseAmount (AmtStr (js ''$1000'')) = parseAmount (AmtStr (js ''1000''))
   \<and> parseAmount (AmtStr (js ''5000Dr.'')) = parseAmount (AmtStr (js ''5000''))
   \<and> parseFloat (amountText (js ''n/a'')) = NaN \<and> parseAmount (AmtStr (js ''n/a'')) = Fin 0
   \<and> parseFloat (amountText (js ''-2,500.75'')) = Fin (- (10003 / 4))
   \<and> parseAmount (AmtStr (js ''-2,500.75'')) = Fin (10003 / 4)"
proof -
  have 1: "parseFloat (amountText (js ''n/a'')) = NaN"
    by (simp add: amountText_def amt_eval)
  have 2: "parseFloat (amountText (js ''-2,500.75'')) = Fin (- (10003 / 4))"
    by (simp add: amountText_def amt_eval)
  have 3: "isDrCrSuffix (js ''Dr.'')" by (simp add: isDrCrSuffix_def isDC_def isR_def js_def)
  have 4: "isCurrencyOrSpace 36" by (simp add: isCurrencyOrSpace_def)
  from parseAmount_spec [where c = 36 and a = "[]" and b = "js ''1000''" and z = "js ''Dr.''" and s = "js ''5000''"]
    parseAmount_spec [where s = "js ''n/a''"]
    parseAmount_spec [where s = "js ''-2,500.75''" and q = "- (10003 / 4)"]
    1 2 3 4
  show ?thesis by (simp add: js_def)
qed

text \<open>
  Claim C10: for every amount (a string or a number), every type hint and every behaviour of
  the two built-ins, \<^verbatim>\<open>determineDebitCredit\<close> returns either \<^verbatim>\<open>parseAmount\<close> of the
  input as the debit with a zero credit, or a zero debit with \<^verbatim>\<open>parseAmount\<close> of the input as
  the credit: at least one side is zero and the other is the parsed amount.
\<close>

theorem determineDebitCredit_one_side:
  "determineDebitCredit toLowerCase numberToString amountStr typeHint = (parseAmount amountStr, Fin 0)
   \<or> determineDebitCredit toLowerCase numberToString amountStr typeHint = (Fin 0, parseAmount amountStr)"
  by (simp add: determineDebitCredit_def Let_def)


theorem determineDebitCredit_one_side_witness:
  "determineDebitCredit asciiLower integerToString (AmtStr (js ''5000 Dr'')) None = (Fin 5000, Fin 0)
   \<and> determineDebitCredit asciiLower integerToString (AmtStr (js ''5000'')) (Some (js ''CR'')) = (Fin 0, Fin 5000)
   \<and> determineDebitCredit asciiLower integerToString (AmtNum (Fin (- 5000))) None = (Fin 5000, Fin 0)"
proof -
  have 1: "parseAmount (AmtStr (js ''5000 Dr'')) = Fin 5000" "parseAmount (AmtStr (js ''5000'')) = Fin 5000"
    by (simp_all add: amt_eval)
  have 2: "natToString 5000 = js ''5000''"
    by (simp add: natToString.simps js_def)
  have 3: "parseAmount (AmtNum (Fin (- 5000))) = Fin 5000"
    by (simp add: parseAmount_def)
  show ?thesis
    using determineDebitCredit_one_side [of asciiLower integerToString "AmtStr (js ''5000 Dr'')" None] 1 2 3
    by (simp add: determineDebitCredit_def asciiLower_def integerToString_def js_def)
qed

section \<open>Properties of the deduplicator\<close>

lemma seenOf_existing:
  "(case seenOf K pre k of None \<Rightarrow> [] | Some ids \<Rightarrow> ids) = map id' (filter (\<lambda>t. K t = k) pre)"
  by (simp add: seenOf_def)

lemma seenOf_snoc:
  "seenOf K (pre @ [tx]) = (seenOf K pre)(K tx \<mapsto> map id' (filter (\<lambda>t. K t = K tx) pre) @ [id' tx])"
  by (rule ext) (simp add: seenOf_def)

lemma filter_nonempty_mem: "t \<in> set l \<Longrightarrow> 1 \<le> length (filter (\<lambda>u. K u = K t) l)"
proof -
  assume "t \<in> set l"
  then have "filter (\<lambda>u. K u = K t) l \<noteq> []" by (auto simp: filter_empty_conv)
  then show ?thesis by (simp add: Suc_le_eq)
qed

lemma count_snoc:
  "length (filter (\<lambda>u. K u = k) (pre @ [tx])) = length (filter (\<lambda>u. K u = k) pre) + (if K tx = k then 1 else 0)"
  by simp

lemma dupOf_snoc:
  "dupOf K (pre @ [tx]) =
     id' ` {t. (t \<in> set pre \<or> t = tx) \<and> 2 \<le> length (filter (\<lambda>u. K u = K t) pre) + (if K tx = K t then 1 else 0)}"
  unfolding dupOf_def count_snoc by auto

lemma dupOf_snoc_seen:
  assumes "filter (\<lambda>t. K t = K tx) pre \<noteq> []"
  shows "dupOf K (pre @ [tx]) = insert (id' tx) (dupOf K pre) \<union> set (map id' (filter (\<lambda>t. K t = K tx) pre))"
proof (intro set_eqI iffI)
  fix x assume "x \<in> dupOf K (pre @ [tx])"
  then obtain t where t: "x = id' t" "t \<in> set pre \<or> t = tx"
    "2 \<le> length (filter (\<lambda>u. K u = K t) pre) + (if K tx = K t then 1 else 0)"
    unfolding dupOf_snoc by blast
  show "x \<in> insert (id' tx) (dupOf K pre) \<union> set (map id' (filter (\<lambda>t. K t = K tx) pre))"
  proof (cases "t = tx")
    case True with t show ?thesis by simp
  next
    case False
    with t have m: "t \<in> set pre" by simp
    show ?thesis
    proof (cases "K tx = K t")
      case True
      with m t(1) show ?thesis by auto
    next
      case False
      with t m have "t \<in> {t \<in> set pre. 2 \<le> length (filter (\<lambda>u. K u = K t) pre)}" by simp
      with t(1) have "x \<in> dupOf K pre" unfolding dupOf_def by blast
      then show ?thesis by simp
    qed
  qed
next
  fix x assume "x \<in> insert (id' tx) (dupOf K pre) \<union> set (map id' (filter (\<lambda>t. K t = K tx) pre))"
  then consider "x = id' tx" | "x \<in> dupOf K pre" | t where "t \<in> set pre" "K t = K tx" "x = id' t"
    by auto
  then show "x \<in> dupOf K (pre @ [tx])"
  proof cases
    case 1
    from assms have "1 \<le> length (filter (\<lambda>t. K t = K tx) pre)" by (simp add: Suc_le_eq)
    then have "2 \<le> length (filter (\<lambda>u. K u = K tx) pre) + (if K tx = K tx then 1 else 0)" by simp
    with 1 show ?thesis unfolding dupOf_snoc by blast
  next
    case 2
    then obtain t where t: "t \<in> set pre" "2 \<le> length (filter (\<lambda>u. K u = K t) pre)" "x = id' t"
      by (auto simp: dupOf_def)
    then have "2 \<le> length (filter (\<lambda>u. K u = K t) pre) + (if K tx = K t then 1 else 0)" by simp
    with t show ?thesis unfolding dupOf_snoc by blast
  next
    case 3
    from filter_nonempty_mem [OF 3(1), of K] 3(2)
    have "2 \<le> length (filter (\<lambda>u. K u = K t) pre) + (if K tx = K t then 1 else 0)" by simp
    with 3 show ?thesis unfolding dupOf_snoc by blast
  qed
qed

lemma dupOf_snoc_new:
  assumes "filter (\<lambda>t. K t = K tx) pre = []"
  shows "dupOf K (pre @ [tx]) = dupOf K pre"
proof -
  have n: "\<And>t. t \<in> set pre \<Longrightarrow> K t \<noteq> K tx"
    using assms by (auto simp: filter_empty_conv)
  have z: "length (filter (\<lambda>u. K u = K tx) pre) = 0" using assms by simp
  have "{t. (t \<in> set pre \<or> t = tx) \<and> 2 \<le> length (filter (\<lambda>u. K u = K t) pre) + (if K tx = K t then 1 else 0)}
      = {t \<in> set pre. 2 \<le> length (filter (\<lambda>u. K u = K t) pre)}"
  proof (intro set_eqI iffI)
    fix t assume "t \<in> {t. (t \<in> set pre \<or> t = tx) \<and> 2 \<le> length (filter (\<lambda>u. K u = K t) pre) + (if K tx = K t then 1 else 0)}"
    then have a: "t \<in> set pre \<or> t = tx" "2 \<le> length (filter (\<lambda>u. K u = K t) pre) + (if K tx = K t then 1 else 0)"
      by simp_all
    have "t \<noteq> tx" using a(2) z by auto
    with a(1) have m: "t \<in> set pre" by simp
    with n have "K tx \<noteq> K t" by metis
    with a(2) m show "t \<in> {t \<in> set pre. 2 \<le> length (filter (\<lambda>u. K u = K t) pre)}" by simp
  next
    fix t assume "t \<in> {t \<in> set pre. 2 \<le> length (filter (\<lambda>u. K u = K t) pre)}"
    then show "t \<in> {t. (t \<in> set pre \<or> t = tx) \<and> 2 \<le> length (filter (\<lambda>u. K u = K t) pre) + (if K tx = K t then 1 else 0)}"
      by simp
  qed
  then have "dupOf K (pre @ [tx]) = id' ` {t \<in> set pre. 2 \<le> length (filter (\<lambda>u. K u = K t) pre)}"
    by (simp only: dupOf_snoc)
  then show ?thesis by (simp only: dupOf_def)
qed

lemma findDuplicatesLoop_inv:
  "findDuplicatesLoop K txs (seenOf K pre) (dupOf K pre) = dupOf K (pre @ txs)"
proof (induction txs arbitrary: pre)
  case Nil
  then show ?case by simp
next
  case (Cons tx txs)
  let ?ex = "map id' (filter (\<lambda>t. K t = K tx) pre)"
  have d: "(if 0 < length ?ex then insert (id' tx) (dupOf K pre) \<union> set ?ex else dupOf K pre) = dupOf K (pre @ [tx])"
    using dupOf_snoc_seen [of K tx pre] dupOf_snoc_new [of K tx pre] by auto
  have "findDuplicatesLoop K (tx # txs) (seenOf K pre) (dupOf K pre)
      = findDuplicatesLoop K txs (seenOf K (pre @ [tx])) (dupOf K (pre @ [tx]))"
    by (simp only: findDuplicatesLoop.simps Let_def seenOf_existing seenOf_snoc d)
  also have "\<dots> = dupOf K ((pre @ [tx]) @ txs)" by (rule Cons.IH)
  finally show ?case by simp
qed

lemma findDuplicates_dupOf:
  "findDuplicates lc nts txs = dupOf (getDuplicateKey lc nts) txs"
proof -
  have "seenOf (getDuplicateKey lc nts) [] = Map.empty" by (rule ext) (simp add: seenOf_def)
  moreover have "dupOf (getDuplicateKey lc nts) [] = {}" by (simp add: dupOf_def)
  ultimately show ?thesis
    using findDuplicatesLoop_inv [of "getDuplicateKey lc nts" txs "[]"] by (simp add: findDuplicates_def)
qed

lemma two_positions_count:
  assumes "i < length l" "j < length l" "i \<noteq> j" "K (l ! i) = K (l ! j)"
  shows "2 \<le> length (filter (\<lambda>u. K u = K (l ! i)) l)"
proof -
  have "\<And>a b. a < b \<Longrightarrow> b < length l \<Longrightarrow> K (l ! a) = K (l ! b) \<Longrightarrow> 2 \<le> length (filter (\<lambda>u. K u = K (l ! a)) l)"
  proof -
    fix a b assume ab: "a < b" "b < length l" "K (l ! a) = K (l ! b)"
    have l: "l = take b l @ l ! b # drop (Suc b) l" using ab(2) by (simp add: id_take_nth_drop)
    have "l ! a \<in> set (take b l)" using ab by (auto simp: in_set_conv_nth intro!: exI [of _ a])
    then have "1 \<le> length (filter (\<lambda>u. K u = K (l ! a)) (take b l))" by (rule filter_nonempty_mem)
    moreover have "length (filter (\<lambda>u. K u = K (l ! a)) l)
        = length (filter (\<lambda>u. K u = K (l ! a)) (take b l)) + length (filter (\<lambda>u. K u = K (l ! a)) (l ! b # drop (Suc b) l))"
      by (subst l) (simp only: filter_append length_append)
    moreover have "1 \<le> length (filter (\<lambda>u. K u = K (l ! a)) (l ! b # drop (Suc b) l))"
      using ab(3) by simp
    ultimately show "2 \<le> length (filter (\<lambda>u. K u = K (l ! a)) l)" by linarith
  qed
  from this [of i j] this [of j i] assms show ?thesis
    by (cases "i < j") (auto simp: not_less le_less)
qed

lemma count_two_positions:
  assumes "i < length l" "2 \<le> length (filter (\<lambda>u. K u = K (l ! i)) l)"
  shows "\<exists>j<length l. j \<noteq> i \<and> K (l ! j) = K (l ! i)"
proof (rule ccontr)
  assume "\<not> ?thesis"
  then have n: "\<And>j. j < length l \<Longrightarrow> j \<noteq> i \<Longrightarrow> K (l ! j) \<noteq> K (l ! i)" by blast
  have l: "l = take i l @ l ! i # drop (Suc i) l" using assms(1) by (simp add: id_take_nth_drop)
  have "filter (\<lambda>u. K u = K (l ! i)) (take i l) = []"
    using n assms(1) by (auto simp: filter_empty_conv in_set_conv_nth)
  moreover have "filter (\<lambda>u. K u = K (l ! i)) (drop (Suc i) l) = []"
    using n assms(1) by (auto simp: filter_empty_conv in_set_conv_nth)
  moreover have "filter (\<lambda>u. K u = K (l ! i)) l
      = filter (\<lambda>u. K u = K (l ! i)) (take i l) @ filter (\<lambda>u. K u = K (l ! i)) (l ! i # drop (Suc i) l)"
    by (subst l) (simp only: filter_append)
  ultimately have "length (filter (\<lambda>u. K u = K (l ! i)) l) = 1" by simp
  with assms(2) show False by simp
qed


lemma getDuplicateKey_parts:
  "getDuplicateKey lc nts tx = joinWith (js ''|'') (keyParts lc nts tx)"
  by (simp add: getDuplicateKey_def keyParts_def)

lemma split_unique:
  fixes a b x y :: jsstring
  assumes "124 \<notin> set a" "124 \<notin> set b" "a @ 124 # x = b @ 124 # y"
  shows "a = b \<and> x = y"
proof -
  have s: "124 \<notin> set p \<Longrightarrow> takeWhile (\<lambda>c. c \<noteq> 124) (p @ 124 # r) = p" for p r :: jsstring
    by (induction p) auto
  from s [OF assms(1), of x] s [OF assms(2), of y] assms(3) have "a = b" by simp
  with assms(3) show ?thesis by simp
qed

lemma key_parts_inj:
  assumes "separatorFree (keyParts lc nts a)" "separatorFree (keyParts lc nts b)"
    "getDuplicateKey lc nts a = getDuplicateKey lc nts b"
  shows "keyParts lc nts a = keyParts lc nts b"
proof -
  let ?r = "\<lambda>t. case reference t of None \<Rightarrow> [] | Some r \<Rightarrow> r"
  from assms(1) have fa: "124 \<notin> set (date a)" "124 \<notin> set (trim (lc (description a)))"
    "124 \<notin> set (nts (debit a))" "124 \<notin> set (nts (credit a))"
    by (simp_all add: separatorFree_def keyParts_def)
  from assms(2) have fb: "124 \<notin> set (date b)" "124 \<notin> set (trim (lc (description b)))"
    "124 \<notin> set (nts (debit b))" "124 \<notin> set (nts (credit b))"
    by (simp_all add: separatorFree_def keyParts_def)
  from assms(3) have e: "date a @ 124 # (trim (lc (description a)) @ 124 # (nts (debit a) @ 124 # (nts (credit a) @ 124 # ?r a)))
      = date b @ 124 # (trim (lc (description b)) @ 124 # (nts (debit b) @ 124 # (nts (credit b) @ 124 # ?r b)))"
    by (simp add: getDuplicateKey_def js_def)
  from split_unique [OF fa(1) fb(1) e] have 1: "date a = date b"
    and e1: "trim (lc (description a)) @ 124 # (nts (debit a) @ 124 # (nts (credit a) @ 124 # ?r a))
      = trim (lc (description b)) @ 124 # (nts (debit b) @ 124 # (nts (credit b) @ 124 # ?r b))" by simp_all
  from split_unique [OF fa(2) fb(2) e1] have 2: "trim (lc (description a)) = trim (lc (description b))"
    and e2: "nts (debit a) @ 124 # (nts (credit a) @ 124 # ?r a) = nts (debit b) @ 124 # (nts (credit b) @ 124 # ?r b)"
    by simp_all
  from split_unique [OF fa(3) fb(3) e2] have 3: "nts (debit a) = nts (debit b)"
    and e3: "nts (credit a) @ 124 # ?r a = nts (credit b) @ 124 # ?r b" by simp_all
  from split_unique [OF fa(4) fb(4) e3] have 4: "nts (credit a) = nts (credit b)" and 5: "?r a = ?r b"
    by simp_all
  from 1 2 3 4 5 show ?thesis by (simp add: keyParts_def)
qed

lemma dupOf_collidingIds: "dupOf K txs = collidingIds K txs"
proof (intro set_eqI iffI)
  fix x assume "x \<in> dupOf K txs"
  then obtain t where t: "t \<in> set txs" "2 \<le> length (filter (\<lambda>u. K u = K t) txs)" "x = id' t"
    by (auto simp: dupOf_def)
  from t(1) obtain i where i: "i < length txs" "t = txs ! i" by (auto simp: in_set_conv_nth)
  from count_two_positions [OF i(1), of K] t(2) i(2)
  obtain j where "j < length txs" "j \<noteq> i" "K (txs ! j) = K (txs ! i)" by blast
  with i t(3) show "x \<in> collidingIds K txs" unfolding collidingIds_def by blast
next
  fix x assume "x \<in> collidingIds K txs"
  then obtain i j where ij: "x = id' (txs ! i)" "i < length txs" "j < length txs" "j \<noteq> i"
    "K (txs ! j) = K (txs ! i)" unfolding collidingIds_def by blast
  have "2 \<le> length (filter (\<lambda>u. K u = K (txs ! i)) txs)"
    using two_positions_count [of i txs j K] ij by simp
  with ij(1,2) show "x \<in> dupOf K txs" unfolding dupOf_def by simp
qed

lemma unique_key_not_marked:
  assumes d: "distinct (map id' txs)" and k: "k < length txs"
    and n: "\<forall>j<length txs. j \<noteq> k \<longrightarrow> K (txs ! j) \<noteq> K (txs ! k)"
  shows "id' (txs ! k) \<notin> collidingIds K txs"
proof
  assume "id' (txs ! k) \<in> collidingIds K txs"
  then have "\<exists>m. id' (txs ! k) = id' (txs ! m) \<and> m < length txs
      \<and> (\<exists>j<length txs. j \<noteq> m \<and> K (txs ! j) = K (txs ! m))"
    unfolding collidingIds_def by simp
  then obtain m where m': "id' (txs ! k) = id' (txs ! m)" and m: "m < length txs"
    "\<exists>j<length txs. j \<noteq> m \<and> K (txs ! j) = K (txs ! m)"
    by blast
  from m' m(1) k d have "m = k"
    by (metis length_map nth_eq_iff_index_eq nth_map)
  with m(2) n show False by blast
qed

text \<open>
  Claim C6, as the code has it: two transactions at different positions with the same
  date, the same lower-cased and trimmed description, the same debit, the same credit and
  the same reference (an absent one counting as empty) have both their ids in the set that
  \<^verbatim>\<open>findDuplicates\<close> returns. The
  key that is compared is the string \<^verbatim>\<open>getDuplicateKey\<close> builds from these five parts, and the
  set holds ids: the set is exactly \<open>collidingIds\<close>, the ids of the transactions whose key
  string is also the key string at another position. So when the ids are pairwise different,
  a transaction whose key string differs from the key string at every other position has
  its id outside the set. For two transactions whose parts before the reference hold no
  \<^verbatim>\<open>|\<close>, the key strings are equal exactly when the five parts are equal; hence, when the
  ids are pairwise different and no such part of any transaction holds \<^verbatim>\<open>|\<close>, a transaction
  whose five parts differ from those at every other position has its id outside the set.
\<close>

theorem findDuplicates_colliding:
  "(i < length txs \<and> j < length txs \<and> i \<noteq> j
      \<and> date (txs ! i) = date (txs ! j)
      \<and> trim (toLowerCase (description (txs ! i))) = trim (toLowerCase (description (txs ! j)))
      \<and> debit (txs ! i) = debit (txs ! j)
      \<and> credit (txs ! i) = credit (txs ! j)
      \<and> (case reference (txs ! i) of None \<Rightarrow> [] | Some r \<Rightarrow> r) = (case reference (txs ! j) of None \<Rightarrow> [] | Some r \<Rightarrow> r)
    \<longrightarrow> id' (txs ! i) \<in> findDuplicates toLowerCase numberToString txs
      \<and> id' (txs ! j) \<in> findDuplicates toLowerCase numberToString txs)
   \<and> findDuplicates toLowerCase numberToString txs
       = collidingIds (getDuplicateKey toLowerCase numberToString) txs
   \<and> (distinct (map id' txs) \<and> k < length txs
      \<and> (\<forall>j<length txs. j \<noteq> k \<longrightarrow>
            getDuplicateKey toLowerCase numberToString (txs ! j) \<noteq> getDuplicateKey toLowerCase numberToString (txs ! k))
    \<longrightarrow> id' (txs ! k) \<notin> findDuplicates toLowerCase numberToString txs)
   \<and> (separatorFree (keyParts toLowerCase numberToString a) \<and> separatorFree (keyParts toLowerCase numberToString b)
    \<longrightarrow> (getDuplicateKey toLowerCase numberToString a = getDuplicateKey toLowerCase numberToString b)
         = (keyParts toLowerCase numberToString a = keyParts toLowerCase numberToString b))
   \<and> (distinct (map id' txs) \<and> k < length txs
      \<and> (\<forall>j<length txs. separatorFree (keyParts toLowerCase numberToString (txs ! j)))
      \<and> (\<forall>j<length txs. j \<noteq> k \<longrightarrow>
            keyParts toLowerCase numberToString (txs ! j) \<noteq> keyParts toLowerCase numberToString (txs ! k))
    \<longrightarrow> id' (txs ! k) \<notin> findDuplicates toLowerCase numberToString txs)"
proof (intro conjI impI; (elim conjE)?)
  let ?K = "getDuplicateKey toLowerCase numberToString"
  assume a: "i < length txs" "j < length txs" "i \<noteq> j"
    and f: "date (txs ! i) = date (txs ! j)"
      "trim (toLowerCase (description (txs ! i))) = trim (toLowerCase (description (txs ! j)))"
      "debit (txs ! i) = debit (txs ! j)" "credit (txs ! i) = credit (txs ! j)"
      "(case reference (txs ! i) of None \<Rightarrow> [] | Some r \<Rightarrow> r) = (case reference (txs ! j) of None \<Rightarrow> [] | Some r \<Rightarrow> r)"
  from f have e: "?K (txs ! i) = ?K (txs ! j)" by (simp add: getDuplicateKey_def)
  have "2 \<le> length (filter (\<lambda>u. ?K u = ?K (txs ! i)) txs)"
    using a e by (rule two_positions_count)
  then show "id' (txs ! i) \<in> findDuplicates toLowerCase numberToString txs"
    using a(1) unfolding findDuplicates_dupOf dupOf_def by simp
  have "2 \<le> length (filter (\<lambda>u. ?K u = ?K (txs ! j)) txs)"
    using two_positions_count [of j txs i ?K] a e by simp
  then show "id' (txs ! j) \<in> findDuplicates toLowerCase numberToString txs"
    using a(2) unfolding findDuplicates_dupOf dupOf_def by simp
next
  show "findDuplicates toLowerCase numberToString txs
       = collidingIds (getDuplicateKey toLowerCase numberToString) txs"
    by (simp only: findDuplicates_dupOf dupOf_collidingIds)
next
  let ?K = "getDuplicateKey toLowerCase numberToString"
  assume "distinct (map id' txs)" "k < length txs"
    "\<forall>j<length txs. j \<noteq> k \<longrightarrow> ?K (txs ! j) \<noteq> ?K (txs ! k)"
  then have "id' (txs ! k) \<notin> collidingIds ?K txs" by (rule unique_key_not_marked)
  then show "id' (txs ! k) \<notin> findDuplicates toLowerCase numberToString txs"
    by (simp add: findDuplicates_dupOf dupOf_collidingIds)
next
  assume "separatorFree (keyParts toLowerCase numberToString a)" "separatorFree (keyParts toLowerCase numberToString b)"
  then show "(getDuplicateKey toLowerCase numberToString a = getDuplicateKey toLowerCase numberToString b)
         = (keyParts toLowerCase numberToString a = keyParts toLowerCase numberToString b)"
    using key_parts_inj [of toLowerCase numberToString a b] by (auto simp: getDuplicateKey_parts)
next
  let ?K = "getDuplicateKey toLowerCase numberToString"
  let ?P = "keyParts toLowerCase numberToString"
  assume d: "distinct (map id' txs)" and k: "k < length txs"
    and s: "\<forall>j<length txs. separatorFree (?P (txs ! j))"
    and n: "\<forall>j<length txs. j \<noteq> k \<longrightarrow> ?P (txs ! j) \<noteq> ?P (txs ! k)"
  have "\<forall>j<length txs. j \<noteq> k \<longrightarrow> ?K (txs ! j) \<noteq> ?K (txs ! k)"
  proof (intro allI impI)
    fix j assume j: "j < length txs" "j \<noteq> k"
    show "?K (txs ! j) \<noteq> ?K (txs ! k)"
    proof
      assume "?K (txs ! j) = ?K (txs ! k)"
      with s j(1) k have "?P (txs ! j) = ?P (txs ! k)" by (simp add: key_parts_inj)
      with n j show False by simp
    qed
  qed
  with d k have "id' (txs ! k) \<notin> collidingIds ?K txs" by (rule unique_key_not_marked)
  then show "id' (txs ! k) \<notin> findDuplicates toLowerCase numberToString txs"
    by (simp add: findDuplicates_dupOf dupOf_collidingIds)
qed

lemma sampleTx_keys:
  "getDuplicateKey asciiLower integerToString (sampleTx i d text (Fin 0) (Fin 25000))
     = d @ js ''|'' @ trim (asciiLower text) @ js ''|0|25000|''"
proof -
  have "natToString 25000 = js ''25000''" "natToString 0 = js ''0''"
    by (simp_all add: natToString.simps js_def)
  then show ?thesis
    by (simp add: getDuplicateKey_def sampleTx_def integerToString_def js_def)
qed

lemma nts_small:
  "integerToString (Fin 0) = js ''0''" "integerToString (Fin 1) = js ''1''" "integerToString (Fin 2) = js ''2''"
  "integerToString (Fin 3) = js ''3''" "integerToString (Fin 500) = js ''500''" "integerToString (Fin 25000) = js ''25000''"
  by (simp_all add: integerToString_def natToString.simps js_def)

theorem findDuplicates_colliding_witness:
  "id' ([sampleTx (js ''a'') (js ''2024-01-15'') (js ''NEFT CR '') (Fin 0) (Fin 25000),
         sampleTx (js ''b'') (js ''2024-01-15'') (js ''neft cr'') (Fin 0) (Fin 25000),
         sampleTx (js ''c'') (js ''2024-01-16'') (js ''neft cr'') (Fin 0) (Fin 25000)] ! 0)
     \<in> findDuplicates asciiLower integerToString
         [sampleTx (js ''a'') (js ''2024-01-15'') (js ''NEFT CR '') (Fin 0) (Fin 25000),
          sampleTx (js ''b'') (js ''2024-01-15'') (js ''neft cr'') (Fin 0) (Fin 25000),
          sampleTx (js ''c'') (js ''2024-01-16'') (js ''neft cr'') (Fin 0) (Fin 25000)]
   \<and> js ''b'' \<in> findDuplicates asciiLower integerToString
         [sampleTx (js ''a'') (js ''2024-01-15'') (js ''NEFT CR '') (Fin 0) (Fin 25000),
          sampleTx (js ''b'') (js ''2024-01-15'') (js ''neft cr'') (Fin 0) (Fin 25000),
          sampleTx (js ''c'') (js ''2024-01-16'') (js ''neft cr'') (Fin 0) (Fin 25000)]
   \<and> js ''c'' \<notin> findDuplicates asciiLower integerToString
         [sampleTx (js ''a'') (js ''2024-01-15'') (js ''NEFT CR '') (Fin 0) (Fin 25000),
          sampleTx (js ''b'') (js ''2024-01-15'') (js ''neft cr'') (Fin 0) (Fin 25000),
          sampleTx (js ''c'') (js ''2024-01-16'') (js ''neft cr'') (Fin 0) (Fin 25000)]
   \<and> keyParts asciiLower integerToString (sampleTx (js ''a'') (js ''2024-01-15'') (js ''NEFT CR '') (Fin 0) (Fin 25000))
       = keyParts asciiLower integerToString (sampleTx (js ''b'') (js ''2024-01-15'') (js ''neft cr'') (Fin 0) (Fin 25000))"
proof -
  let ?a = "sampleTx (js ''a'') (js ''2024-01-15'') (js ''NEFT CR '') (Fin 0) (Fin 25000)"
  let ?b = "sampleTx (js ''b'') (js ''2024-01-15'') (js ''neft cr'') (Fin 0) (Fin 25000)"
  let ?c = "sampleTx (js ''c'') (js ''2024-01-16'') (js ''neft cr'') (Fin 0) (Fin 25000)"
  let ?txs = "[?a, ?b, ?c]"
  let ?K = "getDuplicateKey asciiLower integerToString"
  have ids: "id' ?a = js ''a''" "id' ?b = js ''b''" "id' ?c = js ''c''"
    by (simp_all add: sampleTx_def)
  have t: "trim (asciiLower (js ''NEFT CR '')) = js ''neft cr''" "trim (asciiLower (js ''neft cr'')) = js ''neft cr''"
    by (simp_all add: asciiLower_def trim_def isSpace_def js_def)
  have f: "date ?a = date ?b"
    "trim (asciiLower (description ?a)) = trim (asciiLower (description ?b))"
    "debit ?a = debit ?b" "credit ?a = credit ?b"
    "(case reference ?a of None \<Rightarrow> [] | Some r \<Rightarrow> r) = (case reference ?b of None \<Rightarrow> [] | Some r \<Rightarrow> r)"
    by (simp_all add: sampleTx_def t)
  have keys: "?K ?a = ?K ?b" "?K ?a \<noteq> ?K ?c" "?K ?b \<noteq> ?K ?c"
    by (simp_all add: sampleTx_keys t) (simp_all add: js_def)
  have n: "\<forall>j<length ?txs. j \<noteq> 2 \<longrightarrow> ?K (?txs ! j) \<noteq> ?K (?txs ! 2)"
    using keys by (auto simp: less_Suc_eq numeral_3_eq_3 numeral_2_eq_2)
  have d: "distinct (map id' ?txs)" by (simp add: ids) (simp add: js_def)
  have s: "separatorFree (keyParts asciiLower integerToString ?a)"
    "separatorFree (keyParts asciiLower integerToString ?b)"
    by (simp_all add: separatorFree_def keyParts_def sampleTx_def t nts_small) (simp_all add: js_def)
  have sc: "separatorFree (keyParts asciiLower integerToString ?c)"
    by (simp add: separatorFree_def keyParts_def sampleTx_def t nts_small) (simp add: js_def)
  have pc: "keyParts asciiLower integerToString ?a \<noteq> keyParts asciiLower integerToString ?c"
    "keyParts asciiLower integerToString ?b \<noteq> keyParts asciiLower integerToString ?c"
    by (simp_all add: keyParts_def sampleTx_def) (simp_all add: js_def)
  note T = findDuplicates_colliding [of 0 ?txs 1 asciiLower integerToString 2 ?a ?b]
  have c1: "id' (?txs ! 0) \<in> findDuplicates asciiLower integerToString ?txs
      \<and> id' (?txs ! 1) \<in> findDuplicates asciiLower integerToString ?txs"
    using T [THEN conjunct1] f by simp
  have h3: "distinct (map id' ?txs) \<and> 2 < length ?txs
      \<and> (\<forall>j<length ?txs. j \<noteq> 2 \<longrightarrow> ?K (?txs ! j) \<noteq> ?K (?txs ! 2))"
    using d n by (intro conjI) simp_all
  have c3: "id' (?txs ! 2) \<notin> findDuplicates asciiLower integerToString ?txs"
    by (rule T [THEN conjunct2, THEN conjunct2, THEN conjunct1, THEN mp, OF h3])
  have h4: "separatorFree (keyParts asciiLower integerToString ?a) \<and> separatorFree (keyParts asciiLower integerToString ?b)"
    using s by (intro conjI)
  have c4: "keyParts asciiLower integerToString ?a = keyParts asciiLower integerToString ?b"
    using T [THEN conjunct2, THEN conjunct2, THEN conjunct2, THEN conjunct1, THEN mp, OF h4] keys(1)
    by (rule iffD1)
  have h5: "distinct (map id' ?txs) \<and> 2 < length ?txs
      \<and> (\<forall>j<length ?txs. separatorFree (keyParts asciiLower integerToString (?txs ! j)))
      \<and> (\<forall>j<length ?txs. j \<noteq> 2 \<longrightarrow>
            keyParts asciiLower integerToString (?txs ! j) \<noteq> keyParts asciiLower integerToString (?txs ! 2))"
    using d s sc pc by (intro conjI) (auto simp: less_Suc_eq numeral_3_eq_3 numeral_2_eq_2)
  have c5: "id' (?txs ! 2) \<notin> findDuplicates asciiLower integerToString ?txs"
    by (rule T [THEN conjunct2, THEN conjunct2, THEN conjunct2, THEN conjunct2, THEN mp, OF h5])
  from c1 c3 c4 c5 show ?thesis by (simp add: ids)
qed

text \<open>
  Without these provisos a transaction that shares its five parts with no other can be in
  the set. In \<open>separatorPair\<close> the two transactions differ in description, debit, credit and
  reference and have different ids, but the parts join to the same string and both are
  marked. In \<open>sharedIdList\<close> the key string of the third transaction differs from the two
  others, and its id is in the set because the first transaction has the same id.
\<close>

theorem findDuplicates_unique_counterexample:
  "trim (asciiLower (description (separatorPair ! 0))) \<noteq> trim (asciiLower (description (separatorPair ! 1)))
   \<and> debit (separatorPair ! 0) \<noteq> debit (separatorPair ! 1)
   \<and> credit (separatorPair ! 0) \<noteq> credit (separatorPair ! 1)
   \<and> reference (separatorPair ! 0) \<noteq> reference (separatorPair ! 1)
   \<and> id' (separatorPair ! 0) \<noteq> id' (separatorPair ! 1)
   \<and> findDuplicates asciiLower integerToString separatorPair = {js ''a'', js ''b''}
   \<and> getDuplicateKey asciiLower integerToString (sharedIdList ! 2) \<noteq> getDuplicateKey asciiLower integerToString (sharedIdList ! 0)
   \<and> getDuplicateKey asciiLower integerToString (sharedIdList ! 2) \<noteq> getDuplicateKey asciiLower integerToString (sharedIdList ! 1)
   \<and> id' (sharedIdList ! 2) \<in> findDuplicates asciiLower integerToString sharedIdList"
  by (simp add: separatorPair_def sharedIdList_def sampleTx_def findDuplicates_def getDuplicateKey_def nts_small
      asciiLower_def trim_def isSpace_def js_def)

section \<open>Properties of the voucher generator\<close>






























section \<open>Properties of the chunker\<close>

lemma chunk_count_less: "0 < k \<Longrightarrow> ((j::nat) < (n + k - 1) div k) = (j * k < n)"
proof -
  assume k: "0 < k"
  have "(j < (n + k - 1) div k) = (Suc j \<le> (n + k - 1) div k)" by auto
  also have "\<dots> = (Suc j * k \<le> n + k - 1)" using k by (simp add: less_eq_div_iff_mult_less_eq)
  also have "\<dots> = (j * k < n)" using k by auto
  finally show ?thesis .
qed

lemma splitLoop_correct:
  assumes k: "0 < k" and c: "c = (n + k - 1) div k"
  shows "splitLoop n k (j * k) acc = Some (acc @ map (chunkPages n k) [j..<c])"
proof (induction "c - j" arbitrary: j acc)
  case 0
  then have le: "c \<le> j" by simp
  then have "\<not> j * k < n" using chunk_count_less [OF k, of j n] c by simp
  then show ?case using le by (subst splitLoop.simps) simp
next
  case (Suc d)
  then have jc: "j < c" by simp
  then have lt: "j * k < n" using chunk_count_less [OF k, of j n] c by simp
  have up: "[j..<c] = j # [Suc j..<c]" using jc by (simp add: upt_conv_Cons)
  show ?case
  proof (cases "j * k + k < n")
    case True
    have ih: "splitLoop n k (Suc j * k) (acc @ [chunkPages n k j])
        = Some ((acc @ [chunkPages n k j]) @ map (chunkPages n k) [Suc j..<c])"
      using Suc by (intro Suc.hyps(1)) simp
    have cp: "chunkPages n k j = [j * k..<j * k + k]" using True by (simp add: chunkPages_def)
    show ?thesis
      using True lt ih
      by (subst splitLoop.simps) (simp add: up cp Let_def add.commute)
  next
    case False
    then have ge: "n \<le> j * k + k" by simp
    then have "\<not> Suc j * k < n" by simp
    then have "\<not> Suc j < c" using chunk_count_less [OF k, of "Suc j" n] c by simp
    with jc have e: "c = Suc j" by simp
    have cp: "chunkPages n k j = [j * k..<n]" using ge by (simp add: chunkPages_def)
    show ?thesis
      using lt ge by (subst splitLoop.simps) (auto simp: e cp Let_def)
  qed
qed

lemma upt_split: "a \<le> b \<Longrightarrow> [0..<a] @ [a..<b] = [0..<b]"
  using upt_add_eq_append [of 0 a "b - a"] by simp

lemma concat_chunks:
  assumes k: "0 < k" and c: "c = (n + k - 1) div k"
  shows "j \<le> c \<Longrightarrow> concat (map (chunkPages n k) [0..<j]) = [0..<min (j * k) n]"
proof (induction j)
  case 0
  then show ?case by simp
next
  case (Suc j)
  then have "j < c" by simp
  then have lt: "j * k < n" using chunk_count_less [OF k, of j n] c by simp
  have "concat (map (chunkPages n k) [0..<Suc j]) = [0..<min (j * k) n] @ chunkPages n k j"
    using Suc by simp
  also have "\<dots> = [0..<j * k] @ [j * k..<min (j * k + k) n]"
    using lt by (simp add: chunkPages_def min_def)
  also have "\<dots> = [0..<min (j * k + k) n]"
    using lt by (intro upt_split) simp
  finally show ?case by (simp add: add.commute)
qed

lemma chunk_count_covers: "0 < (k::nat) \<Longrightarrow> n \<le> ((n + k - 1) div k) * k"
proof -
  assume k: "0 < k"
  have "\<not> ((n + k - 1) div k) * k < n" using chunk_count_less [OF k, of "(n + k - 1) div k" n] by simp
  then show ?thesis by simp
qed

text \<open>
  Claim C3: for every number of pages \<open>N\<close> and every chunk size \<open>k\<close> of at least 1 the
  chunker returns, and it returns \<open>\<lceil>N / k\<rceil>\<close> chunks, written \<open>(N + k - 1) div k\<close>; their
  pages in order are exactly the pages 0 to \<open>N - 1\<close>, each once; the chunk with index \<open>i\<close>
  holds the pages from \<open>i * k\<close> up to \<open>min (i * k + k) N\<close>, is not empty and has at most \<open>k\<close>
  pages; and a document without pages gives no chunk.
\<close>

theorem splitPdfIntoChunks_partition:
  assumes "1 \<le> pagesPerChunk"
  shows "\<exists>chunks. splitPdfIntoChunks totalPages pagesPerChunk = Some chunks
     \<and> length chunks = (totalPages + pagesPerChunk - 1) div pagesPerChunk
     \<and> concat chunks = [0..<totalPages]
     \<and> (\<forall>i<length chunks. chunks ! i = chunkPages totalPages pagesPerChunk i
           \<and> chunks ! i \<noteq> [] \<and> length (chunks ! i) \<le> pagesPerChunk)
     \<and> (totalPages = 0 \<longrightarrow> chunks = [])"
proof -
  let ?n = totalPages and ?k = pagesPerChunk
  define c where "c = (?n + ?k - 1) div ?k"
  let ?cs = "map (chunkPages ?n ?k) [0..<c]"
  from assms have k: "0 < ?k" by simp
  have 1: "splitPdfIntoChunks ?n ?k = Some ?cs"
    using splitLoop_correct [OF k c_def, of 0 "[]"] by (simp add: splitPdfIntoChunks_def)
  have 2: "length ?cs = (?n + ?k - 1) div ?k" by (simp add: c_def)
  have "concat ?cs = [0..<min (c * ?k) ?n]" using concat_chunks [OF k c_def, of c] by simp
  moreover have "?n \<le> c * ?k" unfolding c_def using k by (rule chunk_count_covers)
  ultimately have 3: "concat ?cs = [0..<?n]" by (simp add: min_def)
  have 4: "\<forall>i<length ?cs. ?cs ! i = chunkPages ?n ?k i \<and> ?cs ! i \<noteq> [] \<and> length (?cs ! i) \<le> ?k"
  proof (intro allI impI)
    fix i assume "i < length ?cs"
    then have i: "i < c" by simp
    then have "i * ?k < ?n" using chunk_count_less [OF k, of i ?n] by (simp add: c_def)
    then show "?cs ! i = chunkPages ?n ?k i \<and> ?cs ! i \<noteq> [] \<and> length (?cs ! i) \<le> ?k"
      using i k by (auto simp: chunkPages_def)
  qed
  have 5: "?n = 0 \<longrightarrow> ?cs = []" using k by (auto simp: c_def)
  from 1 2 3 4 5 show ?thesis by blast
qed

theorem splitPdfIntoChunks_partition_witness:
  "splitPdfIntoChunks 5 2 = Some [[0, 1], [2, 3], [4]] \<and> splitPdfIntoChunks 0 2 = Some []"
proof -
  have u: "[0..<5] = [0, 1, 2, 3, 4::nat]" by (simp add: upt_rec)
  have "(1::nat) \<le> 2" by simp
  from splitPdfIntoChunks_partition [OF this, of 5] obtain chunks where
    c: "splitPdfIntoChunks 5 2 = Some chunks" "length chunks = (5 + 2 - 1) div 2"
      "\<forall>i<length chunks. chunks ! i = chunkPages 5 2 i \<and> chunks ! i \<noteq> [] \<and> length (chunks ! i) \<le> 2"
    by blast
  from c(2) have l3: "length chunks = 3" by simp
  from l3 obtain x y z where s: "chunks = [x, y, z]"
    by (cases chunks; cases "tl chunks"; cases "tl (tl chunks)"; cases "tl (tl (tl chunks))") auto
  from c(3) s have "x = chunkPages 5 2 0" "y = chunkPages 5 2 1" "z = chunkPages 5 2 2"
    by (auto simp: less_Suc_eq numeral_3_eq_3 numeral_2_eq_2)
  then have "chunks = [[0, 1], [2, 3], [4]]" using s by (simp add: chunkPages_def upt_rec)
  moreover from splitPdfIntoChunks_partition [of 2 0] have "splitPdfIntoChunks 0 2 = Some []" by auto
  ultimately show ?thesis using c(1) by simp
qed

section \<open>Properties of the response recoverer\<close>

lemma part_trans: "jsIncludes s t \<Longrightarrow> jsIncludes t u \<Longrightarrow> jsIncludes s u"
proof -
  assume "jsIncludes s t" "jsIncludes t u"
  then obtain a b c d where "s = a @ t @ b" "t = c @ u @ d" by (auto simp: jsIncludes_iff)
  then have "s = (a @ c) @ u @ (d @ b)" by simp
  then show ?thesis unfolding jsIncludes_iff by blast
qed

lemma part_refl: "jsIncludes s s"
  unfolding jsIncludes_iff by (rule exI [of _ "[]"], rule exI [of _ "[]"]) simp

lemma part_dropWhile: "jsIncludes s (dropWhile P s)"
  unfolding jsIncludes_iff
  by (rule exI [of _ "takeWhile P s"], rule exI [of _ "[]"]) simp

lemma part_rev: "jsIncludes s t \<Longrightarrow> jsIncludes (rev s) (rev t)"
proof -
  assume "jsIncludes s t"
  then obtain a b where "s = a @ t @ b" by (auto simp: jsIncludes_iff)
  then have "rev s = rev b @ rev t @ rev a" by simp
  then show ?thesis unfolding jsIncludes_iff by blast
qed

lemma part_trim: "jsIncludes s (trim s)"
proof -
  have "jsIncludes (rev (dropWhile isSpace s)) (dropWhile isSpace (rev (dropWhile isSpace s)))"
    by (rule part_dropWhile)
  from part_rev [OF this] have "jsIncludes (dropWhile isSpace s) (trim s)" by (simp add: trim_def)
  with part_dropWhile [of s isSpace] show ?thesis by (rule part_trans)
qed

lemma part_drop: "jsIncludes s (drop n s)"
  unfolding jsIncludes_iff
  by (rule exI [of _ "take n s"], rule exI [of _ "[]"]) simp

lemma part_take: "jsIncludes s (take n s)"
  unfolding jsIncludes_iff
  by (rule exI [of _ "[]"], rule exI [of _ "drop n s"]) simp

lemma part_substring: "jsIncludes s (substring s i j)"
  unfolding substring_def by (rule part_trans [OF part_drop part_take])

lemma beforeFirst_prefix: "beforeFirst p s = Some b \<Longrightarrow> \<exists>r. s = b @ r"
proof (induction s arbitrary: b)
  case Nil
  then show ?case by (auto split: if_splits)
next
  case (Cons c s)
  then show ?case by (auto split: if_splits option.splits)
qed

lemma part_beforeFirst: "beforeFirst p s = Some b \<Longrightarrow> jsIncludes s b"
proof -
  assume "beforeFirst p s = Some b"
  then obtain r where "s = b @ r" using beforeFirst_prefix by blast
  then have "s = [] @ b @ r" by simp
  then show ?thesis unfolding jsIncludes_iff by blast
qed

lemma part_fenceMatch: "fenceMatch s = Some g \<Longrightarrow> jsIncludes s g"
proof -
  assume a: "fenceMatch s = Some g"
  then obtain r where r: "afterFirst fence s = Some r" by (auto simp: fenceMatch_def split: option.splits)
  let ?r1 = "if startsWith r (js ''json'') then drop 4 r else r"
  from a r have g: "beforeFirst fence (dropWhile isSpace ?r1) = Some g"
    by (simp add: fenceMatch_def Let_def)
  from r have "jsIncludes s r" by (auto simp: afterFirst_def part_drop split: option.splits)
  moreover have "jsIncludes r ?r1" by (simp add: part_drop part_refl)
  moreover have "jsIncludes ?r1 (dropWhile isSpace ?r1)" by (rule part_dropWhile)
  moreover have "jsIncludes (dropWhile isSpace ?r1) g" using g by (rule part_beforeFirst)
  ultimately show ?thesis by (blast intro: part_trans)
qed

lemma part_greedyBetween: "greedyBetween p q s = Some m \<Longrightarrow> jsIncludes s m"
proof -
  assume a: "greedyBetween p q s = Some m"
  let ?r = "dropWhile (\<lambda>c. c \<noteq> p) s"
  let ?d = "drop 1 ?r"
  let ?t = "rev (dropWhile (\<lambda>c. c \<noteq> q) (rev ?d))"
  let ?tail = "rev (takeWhile (\<lambda>c. c \<noteq> q) (rev ?d))"
  from a have ne: "?r \<noteq> []" and m: "m = p # ?t"
    by (auto simp: greedyBetween_def Let_def split: if_splits)
  from ne have "hd ?r = p" using hd_dropWhile [of "\<lambda>c. c \<noteq> p" s] by simp
  with ne have r: "?r = p # ?d" by (cases ?r) auto
  have "rev ?d = takeWhile (\<lambda>c. c \<noteq> q) (rev ?d) @ dropWhile (\<lambda>c. c \<noteq> q) (rev ?d)"
    by simp
  then have "?d = ?t @ ?tail" by (metis rev_append rev_rev_ident)
  with r m have "?r = m @ ?tail" by simp
  moreover have "s = takeWhile (\<lambda>c. c \<noteq> p) s @ ?r" by simp
  ultimately have "s = takeWhile (\<lambda>c. c \<noteq> p) s @ m @ ?tail" by simp
  then show ?thesis unfolding jsIncludes_iff by blast
qed

lemma parseAIResponse_cases:
  "parseAIResponse jsonParse responseText =
     (if trim responseText = [] then Inr (transactionsObject (JArr []))
      else case jsonParse (jsonCandidate responseText) of
             Inr v \<Rightarrow> Inr v
           | Inl e \<Rightarrow>
              (case greedyBetween 91 93 responseText of
                 Some arrayMatch \<Rightarrow>
                   (case jsonParse arrayMatch of
                      Inr v \<Rightarrow> Inr (transactionsObject v)
                    | Inl e' \<Rightarrow> Inr (transactionsObject (JArr [])))
               | None \<Rightarrow> Inr (transactionsObject (JArr []))))"
proof (cases "trim responseText = []")
  case True
  then show ?thesis by (simp add: parseAIResponse_def)
next
  case False
  then have "responseText \<noteq> []" using trim_Nil by auto
  with False show ?thesis
    by (simp add: parseAIResponse_def jsonCandidate_def Let_def split: prod.splits)
qed

lemma part_jsonCandidate: "jsIncludes responseText (jsonCandidate responseText)"
proof -
  let ?j0 = "case fenceMatch responseText of Some g \<Rightarrow> trim g | None \<Rightarrow> responseText"
  have p0: "jsIncludes responseText ?j0"
    by (auto split: option.splits intro: part_refl part_trans [OF part_fenceMatch part_trim])
  obtain st en where se: "braceScan ?j0 0 0 (- 1) = (st, en)" by (cases "braceScan ?j0 0 0 (- 1)") auto
  let ?j1 = "if st \<noteq> - 1 \<and> en \<noteq> - 1 then substring ?j0 st en else ?j0"
  have "jsIncludes ?j0 ?j1" by (simp add: part_substring part_refl)
  with p0 have "jsIncludes responseText ?j1" by (rule part_trans)
  then show ?thesis by (simp add: jsonCandidate_def Let_def se)
qed

lemma beforeFirst_split: "beforeFirst p s = Some b \<Longrightarrow> \<exists>r. s = b @ p @ r"
proof (induction s arbitrary: b)
  case Nil
  then show ?case by (auto split: if_splits)
next
  case (Cons c s)
  show ?case
  proof (cases "startsWith (c # s) p")
    case True
    with Cons.prems have "b = []" by simp
    with True show ?thesis by (auto simp: startsWith_iff)
  next
    case False
    with Cons.prems obtain b' where b': "beforeFirst p s = Some b'" "b = c # b'"
      by (auto split: option.splits)
    from Cons.IH [OF b'(1)] obtain r where "s = b' @ p @ r" by blast
    with b'(2) show ?thesis by auto
  qed
qed

lemma part_fallbackAt: "fallbackAt s = Some g \<Longrightarrow> jsIncludes s g"
proof -
  assume a: "fallbackAt s = Some g"
  let ?s1 = "dropWhile isSpace (drop 14 s)"
  from a obtain r where r: "?s1 = 58 # r"
    by (auto simp: fallbackAt_def split: if_splits list.splits)
  let ?s2 = "dropWhile isSpace r"
  from a r obtain r' where r': "?s2 = 91 # r'"
    by (auto simp: fallbackAt_def split: if_splits list.splits)
  from a r r' obtain b where b: "beforeFirst [93] r' = Some b" "g = 91 # b @ [93]"
    by (auto simp: fallbackAt_def split: if_splits option.splits)
  from beforeFirst_split [OF b(1)] obtain z where "r' = b @ [93] @ z" by blast
  with r' b(2) have "?s2 = [] @ g @ z" by simp
  then have 1: "jsIncludes ?s2 g" unfolding jsIncludes_iff by blast
  have 2: "jsIncludes r ?s2" by (rule part_dropWhile)
  have "?s1 = [58] @ r @ []" using r by simp
  then have 3: "jsIncludes ?s1 r" unfolding jsIncludes_iff by blast
  have 4: "jsIncludes (drop 14 s) ?s1" by (rule part_dropWhile)
  have 5: "jsIncludes s (drop 14 s)" by (rule part_drop)
  from 5 4 3 2 1 show ?thesis by (blast intro: part_trans)
qed

lemma part_fallbackMatch: "fallbackMatch s = Some g \<Longrightarrow> jsIncludes s g"
proof (induction s)
  case Nil
  then show ?case by simp
next
  case (Cons c s)
  show ?case
  proof (cases "fallbackAt (c # s)")
    case (Some h)
    with Cons.prems have "h = g" by simp
    with Some show ?thesis by (simp only: part_fallbackAt)
  next
    case None
    with Cons.prems have "fallbackMatch s = Some g" by simp
    then have "jsIncludes s g" by (rule Cons.IH)
    then show ?thesis by simp
  qed
qed

lemma parseAIResponseImage_throws:
  assumes h: "\<forall>t. jsIncludes responseText t \<longrightarrow> (\<exists>e. jsonParse t = Inl e)"
  shows "\<exists>e. parseAIResponseImage jsonParse responseText = Inl (Error e)"
proof (cases "responseText = [] \<or> length (trim responseText) = 0")
  case True
  then show ?thesis by (simp add: parseAIResponseImage_def)
next
  case False
  let ?j0 = "case fenceMatch responseText of Some g \<Rightarrow> trim g | None \<Rightarrow> responseText"
  have p0: "jsIncludes responseText ?j0"
    by (auto split: option.splits intro: part_refl part_trans [OF part_fenceMatch part_trim])
  have f: "\<And>t. jsIncludes ?j0 t \<Longrightarrow> \<exists>e. jsonParse t = Inl e"
    using h p0 part_trans by blast
  have 1: "\<And>a. greedyBetween 91 93 ?j0 = Some a \<Longrightarrow> \<exists>e. jsonParse a = Inl e"
    using f part_greedyBetween by blast
  have 2: "\<And>m. greedyBetween 123 125 ?j0 = Some m \<Longrightarrow> \<exists>e. jsonParse m = Inl e"
    using f part_greedyBetween by blast
  have 3: "\<exists>e. jsonParse ?j0 = Inl e" using f part_refl by blast
  have 4: "\<And>g. fallbackMatch responseText = Some g \<Longrightarrow> \<exists>e. jsonParse g = Inl e"
    using h part_fallbackMatch by blast
  show ?thesis
  proof (cases "greedyBetween 123 125 ?j0")
    case None
    show ?thesis
    proof (cases "greedyBetween 91 93 ?j0")
      case (Some a)
      from 1 [OF Some] obtain e where "jsonParse a = Inl e" by blast
      with False None Some show ?thesis by (simp add: parseAIResponseImage_def Let_def)
    next
      case N: None
      from 3 obtain e where e: "jsonParse ?j0 = Inl e" by blast
      show ?thesis
      proof (cases "fallbackMatch responseText")
        case None' : None
        with False None N e show ?thesis by (simp add: parseAIResponseImage_def Let_def)
      next
        case (Some g)
        from 4 [OF Some] obtain e' where "jsonParse g = Inl e'" by blast
        with False None N e Some show ?thesis by (simp add: parseAIResponseImage_def Let_def)
      qed
    qed
  next
    case (Some m)
    from 2 [OF Some] obtain e where e: "jsonParse m = Inl e" by blast
    show ?thesis
    proof (cases "fallbackMatch responseText")
      case None
      with False Some e show ?thesis by (simp add: parseAIResponseImage_def Let_def)
    next
      case S: (Some g)
      from 4 [OF S] obtain e' where "jsonParse g = Inl e'" by blast
      with False Some e S show ?thesis by (simp add: parseAIResponseImage_def Let_def)
    qed
  qed
qed

text \<open>
  Claim C2, as the code has it: the \<^verbatim>\<open>parseAIResponse\<close> of the streaming route returns on
  every text and for every behaviour of \<^verbatim>\<open>JSON.parse\<close>, it never throws. On an empty or
  blank text the result
  is the object with an empty transaction list. Otherwise, when \<^verbatim>\<open>JSON.parse\<close> reads an
  object from the candidate text, that object is the result; when it rejects the candidate
  and reads the bracketed part of the response, the result is the object holding what it
  read as the transaction list; and when every strategy fails, that is when it rejects the
  candidate and the bracketed part, if there is one, the result is the object with an
  empty transaction list. In particular this is so when no part of the response parses.
  The result is an object unless \<^verbatim>\<open>JSON.parse\<close> reads from the candidate a value that is
  not one. The \<^verbatim>\<open>parseAIResponse\<close> of the image route throws instead: the error
  \<^verbatim>\<open>AI returned empty response\<close> on an empty or blank text, and an error whenever no part of
  the response parses.
\<close>

theorem parseAIResponse_total:
  "(\<exists>v. parseAIResponse jsonParse responseText = Inr v)
   \<and> (trim responseText = [] \<longrightarrow> parseAIResponse jsonParse responseText = Inr (transactionsObject (JArr [])))
   \<and> (trim responseText \<noteq> [] \<and> jsonParse (jsonCandidate responseText) = Inr (JObj members)
      \<longrightarrow> parseAIResponse jsonParse responseText = Inr (JObj members))
   \<and> (trim responseText \<noteq> [] \<and> jsonParse (jsonCandidate responseText) = Inl e
        \<and> greedyBetween 91 93 responseText = Some arrayMatch \<and> jsonParse arrayMatch = Inr rows
      \<longrightarrow> parseAIResponse jsonParse responseText = Inr (transactionsObject rows))
   \<and> (jsonParse (jsonCandidate responseText) = Inl e
        \<and> (\<forall>a. greedyBetween 91 93 responseText = Some a \<longrightarrow> (\<exists>e'. jsonParse a = Inl e'))
      \<longrightarrow> parseAIResponse jsonParse responseText = Inr (transactionsObject (JArr [])))
   \<and> ((\<forall>t. jsIncludes responseText t \<longrightarrow> (\<exists>e. jsonParse t = Inl e))
      \<longrightarrow> parseAIResponse jsonParse responseText = Inr (transactionsObject (JArr [])))
   \<and> ((\<forall>v. jsonParse (jsonCandidate responseText) = Inr v \<longrightarrow> isObject v)
      \<longrightarrow> (\<exists>members. parseAIResponse jsonParse responseText = Inr (JObj members)))
   \<and> (trim responseText = []
      \<longrightarrow> parseAIResponseImage jsonParse responseText = Inl (Error (js ''AI returned empty response'')))
   \<and> ((\<forall>t. jsIncludes responseText t \<longrightarrow> (\<exists>e. jsonParse t = Inl e))
      \<longrightarrow> (\<exists>e. parseAIResponseImage jsonParse responseText = Inl (Error e)))"
proof (intro conjI impI; (elim conjE)?)
  show "\<exists>v. parseAIResponse jsonParse responseText = Inr v"
    by (auto simp: parseAIResponse_cases split: sum.splits option.splits)
next
  assume "trim responseText = []"
  then show "parseAIResponse jsonParse responseText = Inr (transactionsObject (JArr []))"
    by (simp add: parseAIResponse_cases)
next
  assume "trim responseText \<noteq> []" "jsonParse (jsonCandidate responseText) = Inr (JObj members)"
  then show "parseAIResponse jsonParse responseText = Inr (JObj members)"
    by (simp add: parseAIResponse_cases)
next
  assume "trim responseText \<noteq> []" "jsonParse (jsonCandidate responseText) = Inl e"
    "greedyBetween 91 93 responseText = Some arrayMatch" "jsonParse arrayMatch = Inr rows"
  then show "parseAIResponse jsonParse responseText = Inr (transactionsObject rows)"
    by (simp add: parseAIResponse_cases)
next
  assume "jsonParse (jsonCandidate responseText) = Inl e"
    "\<forall>a. greedyBetween 91 93 responseText = Some a \<longrightarrow> (\<exists>e'. jsonParse a = Inl e')"
  then show "parseAIResponse jsonParse responseText = Inr (transactionsObject (JArr []))"
    by (auto simp: parseAIResponse_cases split: option.splits sum.splits)
next
  assume h: "\<forall>t. jsIncludes responseText t \<longrightarrow> (\<exists>e. jsonParse t = Inl e)"
  from h part_jsonCandidate obtain e where 1: "jsonParse (jsonCandidate responseText) = Inl e" by blast
  have 2: "\<And>a. greedyBetween 91 93 responseText = Some a \<Longrightarrow> \<exists>e. jsonParse a = Inl e"
    using h part_greedyBetween by blast
  show "parseAIResponse jsonParse responseText = Inr (transactionsObject (JArr []))"
    using 1 2 by (auto simp: parseAIResponse_cases split: option.splits sum.splits)
next
  assume o: "\<forall>v. jsonParse (jsonCandidate responseText) = Inr v \<longrightarrow> isObject v"
  show "\<exists>members. parseAIResponse jsonParse responseText = Inr (JObj members)"
  proof (cases "jsonParse (jsonCandidate responseText)")
    case (Inl e)
    then show ?thesis
      by (auto simp: parseAIResponse_cases transactionsObject_def split: option.splits sum.splits)
  next
    case (Inr v)
    with o have "isObject v" by simp
    then obtain members where "v = JObj members" by (cases v) auto
    with Inr show ?thesis by (simp add: parseAIResponse_cases transactionsObject_def)
  qed
next
  assume "trim responseText = []"
  then show "parseAIResponseImage jsonParse responseText = Inl (Error (js ''AI returned empty response''))"
    by (simp add: parseAIResponseImage_def)
next
  assume "\<forall>t. jsIncludes responseText t \<longrightarrow> (\<exists>e. jsonParse t = Inl e)"
  then show "\<exists>e. parseAIResponseImage jsonParse responseText = Inl (Error e)"
    by (rule parseAIResponseImage_throws)
qed


lemma sampleJsonParse_fails:
  assumes "jsIncludes (js ''Nothing here, no rows.'') t"
  shows "\<exists>e. sampleJsonParse t = Inl e"
proof -
  from assms obtain a b where "js ''Nothing here, no rows.'' = a @ t @ b"
    by (auto simp: jsIncludes_iff)
  then have "set t \<subseteq> set (js ''Nothing here, no rows.'')" by (metis set_append sup_ge1 sup_ge2 subset_trans)
  then have "123 \<notin> set t" "91 \<notin> set t" "117 \<notin> set t" "48 \<notin> set t" by (auto simp: js_def)
  then have "t \<noteq> js ''{}''" "t \<noteq> js ''[]''" "t \<noteq> js ''null''" "t \<noteq> js ''0''" by (auto simp: js_def)
  then show ?thesis by (simp add: sampleJsonParse_def)
qed

lemmas rec_eval = parseAIResponse_def parseAIResponseImage_def fenceMatch_def afterFirst_def fence_def
  greedyBetween_def substring_def transactionsObject_def sampleJsonParse_def trim_def isSpace_def js_def

lemma jsonCandidate_samples:
  "jsonCandidate (js ''Here you go: ```json {} ``` bye'') = js ''{}''"
  "jsonCandidate (js ''rows: []'') = js ''rows: []''"
  "jsonCandidate (js ''found 0 rows'') = js ''found 0 rows''"
  "jsonCandidate (js ''null'') = js ''null''"
  by (simp_all add: jsonCandidate_def rec_eval)

lemma trim_samples:
  "trim (js ''Here you go: ```json {} ``` bye'') \<noteq> []"
  "trim (js ''rows: []'') \<noteq> []"
  by (simp_all add: trim_def isSpace_def js_def)

lemma greedyBetween_samples:
  "greedyBetween 91 93 (js ''rows: []'') = Some (js ''[]'')"
  "greedyBetween 91 93 (js ''found 0 rows'') = None"
  by (simp_all add: greedyBetween_def js_def)

lemma sampleJsonParse_samples:
  "sampleJsonParse (js ''{}'') = Inr (JObj [])"
  "sampleJsonParse (js ''[]'') = Inr (JArr [])"
  "sampleJsonParse (js ''0'') = Inr (JNum (Fin 0))"
  "sampleJsonParse (js ''rows: []'') = Inl (js ''Unexpected token'')"
  "sampleJsonParse (js ''found 0 rows'') = Inl (js ''Unexpected token'')"
  by (simp_all add: sampleJsonParse_def js_def)

theorem parseAIResponse_total_witness:
  "parseAIResponse sampleJsonParse [] = Inr (transactionsObject (JArr []))
   \<and> parseAIResponse sampleJsonParse (js ''Here you go: ```json {} ``` bye'') = Inr (JObj [])
   \<and> parseAIResponse sampleJsonParse (js ''rows: []'') = Inr (transactionsObject (JArr []))
   \<and> parseAIResponse sampleJsonParse (js ''found 0 rows'') = Inr (transactionsObject (JArr []))
   \<and> parseAIResponse sampleJsonParse (js ''Nothing here, no rows.'') = Inr (transactionsObject (JArr []))
   \<and> (\<exists>members. parseAIResponse sampleJsonParse (js ''Here you go: ```json {} ``` bye'') = Inr (JObj members))
   \<and> parseAIResponseImage sampleJsonParse [] = Inl (Error (js ''AI returned empty response''))
   \<and> (\<exists>e. parseAIResponseImage sampleJsonParse (js ''Nothing here, no rows.'') = Inl (Error e))"
proof -
  let ?fenced = "js ''Here you go: ```json {} ``` bye''"
  let ?prose = "js ''Nothing here, no rows.''"
  have t0: "trim [] = []" by (simp add: trim_def)
  have np: "\<forall>t. jsIncludes ?prose t \<longrightarrow> (\<exists>e. sampleJsonParse t = Inl e)"
    using sampleJsonParse_fails by blast
  have na: "\<forall>a. greedyBetween 91 93 (js ''found 0 rows'') = Some a \<longrightarrow> (\<exists>e'. sampleJsonParse a = Inl e')"
    by (simp add: greedyBetween_samples)
  have ob: "\<forall>v. sampleJsonParse (jsonCandidate ?fenced) = Inr v \<longrightarrow> isObject v"
    by (auto simp: jsonCandidate_samples sampleJsonParse_samples)
  note A = parseAIResponse_total [of sampleJsonParse "[]"]
  note B = parseAIResponse_total [of sampleJsonParse ?fenced "[]"]
  note C = parseAIResponse_total [of sampleJsonParse "js ''rows: []''" _ "js ''Unexpected token''" "js ''[]''" "JArr []"]
  note D = parseAIResponse_total [of sampleJsonParse "js ''found 0 rows''" _ "js ''Unexpected token''"]
  note E = parseAIResponse_total [of sampleJsonParse ?prose]
  have c1: "parseAIResponse sampleJsonParse [] = Inr (transactionsObject (JArr []))"
    using A [THEN conjunct2, THEN conjunct1] t0 by simp
  have c2: "parseAIResponse sampleJsonParse ?fenced = Inr (JObj [])"
    using B [THEN conjunct2, THEN conjunct2, THEN conjunct1]
    by (simp add: jsonCandidate_samples sampleJsonParse_samples trim_samples)
  have c3: "parseAIResponse sampleJsonParse (js ''rows: []'') = Inr (transactionsObject (JArr []))"
    using C [THEN conjunct2, THEN conjunct2, THEN conjunct2, THEN conjunct1]
    by (simp add: jsonCandidate_samples sampleJsonParse_samples trim_samples greedyBetween_samples)
  have c4: "parseAIResponse sampleJsonParse (js ''found 0 rows'') = Inr (transactionsObject (JArr []))"
    using D [THEN conjunct2, THEN conjunct2, THEN conjunct2, THEN conjunct2, THEN conjunct1] na
    by (simp add: jsonCandidate_samples sampleJsonParse_samples)
  have c5: "parseAIResponse sampleJsonParse ?prose = Inr (transactionsObject (JArr []))"
    by (rule E [THEN conjunct2, THEN conjunct2, THEN conjunct2, THEN conjunct2, THEN conjunct2, THEN conjunct1,
          THEN mp, OF np])
  have c6: "\<exists>members. parseAIResponse sampleJsonParse ?fenced = Inr (JObj members)"
    by (rule B [THEN conjunct2, THEN conjunct2, THEN conjunct2, THEN conjunct2, THEN conjunct2, THEN conjunct2,
          THEN conjunct1, THEN mp, OF ob])
  have c7: "parseAIResponseImage sampleJsonParse [] = Inl (Error (js ''AI returned empty response''))"
    using A [THEN conjunct2, THEN conjunct2, THEN conjunct2, THEN conjunct2, THEN conjunct2, THEN conjunct2,
          THEN conjunct2, THEN conjunct1] t0 by simp
  have c8: "\<exists>e. parseAIResponseImage sampleJsonParse ?prose = Inl (Error e)"
    by (rule E [THEN conjunct2, THEN conjunct2, THEN conjunct2, THEN conjunct2, THEN conjunct2, THEN conjunct2,
          THEN conjunct2, THEN conjunct2, THEN mp, OF np])
  from c1 c2 c3 c4 c5 c6 c7 c8 show ?thesis by (intro conjI)
qed

text \<open>
  A response that is JSON but not an object, such as the text \<^verbatim>\<open>null\<close>, comes back from the
  streaming route as \<^verbatim>\<open>JSON.parse\<close> read it; the statement above leaves that case open.
\<close>

lemma parseAIResponse_non_object:
  "parseAIResponse sampleJsonParse (js ''null'') = Inr JNull \<and> \<not> isObject JNull"
  by (simp add: parseAIResponse_cases jsonCandidate_samples sampleJsonParse_def) (simp add: trim_def isSpace_def js_def)

text \<open>
  The \<^verbatim>\<open>parseAIResponse\<close> of the image route throws on the empty string and on prose
  without JSON.
\<close>

theorem parseAIResponseImage_throws_counterexample:
  "parseAIResponseImage sampleJsonParse [] = Inl (Error (js ''AI returned empty response''))
   \<and> parseAIResponseImage sampleJsonParse (js ''no json here'')
       = Inl (Error (js ''Could not parse AI response as JSON''))"
  by (simp add: rec_eval fallbackAt_def)

section \<open>Properties of the orchestrator\<close>

lemma find_snoc: "find P (xs @ [x]) = (case find P xs of Some y \<Rightarrow> Some y | None \<Rightarrow> if P x then Some x else None)"
  by (induction xs) auto

lemma firstBankName_truthy: "firstBankName ps = None \<or> truthyOpt (firstBankName ps)"
proof (cases "find (\<lambda>p. truthyOpt (propOf p (js ''bankName''))) ps")
  case None
  then show ?thesis by (simp add: firstBankName_def)
next
  case (Some p)
  then have "truthyOpt (propOf p (js ''bankName''))" by (auto simp: find_Some_iff)
  with Some show ?thesis by (simp add: firstBankName_def)
qed

lemma firstBankName_snoc:
  "firstBankName (ps @ [p]) =
     (if truthyOpt (firstBankName ps) then firstBankName ps
      else if truthyOpt (propOf p (js ''bankName'')) then propOf p (js ''bankName'') else None)"
proof (cases "find (\<lambda>p. truthyOpt (propOf p (js ''bankName''))) ps")
  case None
  then show ?thesis by (simp add: firstBankName_def find_snoc truthyOpt_def)
next
  case (Some q)
  then have "truthyOpt (propOf q (js ''bankName''))" by (auto simp: find_Some_iff)
  with Some show ?thesis by (simp add: firstBankName_def find_snoc)
qed

lemma bankInv_simple:
  "bankInv st \<Longrightarrow> bankInv (enqueue e st)"
  "bankInv st \<Longrightarrow> bankInv (wait ms st)"
  "bankInv st \<Longrightarrow> bankInv (st\<lparr>warnings := w\<rparr>)"
  by (simp_all add: bankInv_def enqueue_def wait_def)

lemma assignBankName_inv:
  assumes "bankInv st"
  shows "assignBankName parsed (st\<lparr>parsedLog := parsedLog st @ [parsed]\<rparr>) = Inr st1 \<Longrightarrow> bankInv st1"
    and "assignBankName parsed (st\<lparr>parsedLog := parsedLog st @ [parsed]\<rparr>) = Inl m
       \<Longrightarrow> bankInv (st\<lparr>parsedLog := parsedLog st @ [parsed]\<rparr>)"
proof -
  from assms have b: "bankNameVar st = firstBankName (parsedLog st)" by (simp add: bankInv_def)
  have n: "\<not> truthyOpt (firstBankName (parsedLog st)) \<Longrightarrow> firstBankName (parsedLog st) = None"
    using firstBankName_truthy [of "parsedLog st"] by blast
  show "assignBankName parsed (st\<lparr>parsedLog := parsedLog st @ [parsed]\<rparr>) = Inr st1 \<Longrightarrow> bankInv st1"
    using b n by (auto simp: assignBankName_def bankInv_def firstBankName_snoc split: if_splits)
  show "assignBankName parsed (st\<lparr>parsedLog := parsedLog st @ [parsed]\<rparr>) = Inl m
       \<Longrightarrow> bankInv (st\<lparr>parsedLog := parsedLog st @ [parsed]\<rparr>)"
    using b n by (auto simp: assignBankName_def bankInv_def firstBankName_snoc truthyOpt_def split: if_splits)
qed

lemma tryChunk_inv:
  assumes "bankInv st"
  shows "tryChunk W p i n a st = Inr r \<Longrightarrow> bankInv r"
    and "tryChunk W p i n a st = Inl (m, r) \<Longrightarrow> bankInv r"
proof -
  note ab = assignBankName_inv [OF assms]
  show "tryChunk W p i n a st = Inr r \<Longrightarrow> bankInv r"
    unfolding tryChunk_def Let_def
    by (auto split: sum.splits jsError.splits if_splits dest: ab(1) intro: bankInv_simple)
  show "tryChunk W p i n a st = Inl (m, r) \<Longrightarrow> bankInv r"
    unfolding tryChunk_def Let_def using assms
    by (auto split: sum.splits jsError.splits if_splits dest: ab intro: bankInv_simple)
qed

lemma chunkLoop_preserves:
  assumes e: "\<And>e s. P s \<Longrightarrow> P (enqueue e s)"
    and w: "\<And>ms s. P s \<Longrightarrow> P (wait ms s)"
    and u: "\<And>x s. P s \<Longrightarrow> P (s\<lparr>warnings := x\<rparr>)"
    and t1: "\<And>W p i n a s r. P s \<Longrightarrow> tryChunk W p i n a s = Inr r \<Longrightarrow> P r"
    and t2: "\<And>W p i n a s m r. P s \<Longrightarrow> tryChunk W p i n a s = Inl (m, r) \<Longrightarrow> P r"
  shows "P st \<Longrightarrow> P (chunkLoop W p i n retries st)"
proof (induction W p i n retries st rule: chunkLoop.induct)
  case (1 W p i n retries st)
  show ?case
  proof (cases "retries \<le> MAX_RETRIES")
    case False
    with 1(3) show ?thesis by (subst chunkLoop.simps) simp
  next
    case le: True
    show ?thesis
    proof (cases "tryChunk W p i n retries st")
      case (Inr r)
      with le t1 [OF 1(3)] show ?thesis by (subst chunkLoop.simps) auto
    next
      case (Inl mr)
      obtain m r where mr: "mr = (m, r)" by (cases mr) auto
      from t2 [OF 1(3)] Inl mr have r: "P r" by auto
      show ?thesis
      proof (cases "rateLimited m")
        case True
        have "P (wait 32000 (enqueue (Progress (js ''Rate limited. Waiting 32s...'') (i + 1) n) r))"
          using r e w by simp
        from "1.IH"(1) [OF le Inl mr [symmetric] True this] le Inl mr True show ?thesis
          by (subst chunkLoop.simps) simp
      next
        case nl: False
        show ?thesis
        proof (cases "retries + 1 > MAX_RETRIES")
          case True
          with le Inl mr nl u [OF r] show ?thesis by (subst chunkLoop.simps) simp
        next
          case False
          from "1.IH"(2) [OF le Inl mr [symmetric] nl False r] le Inl mr nl False show ?thesis
            by (subst chunkLoop.simps) simp
        qed
      qed
    qed
  qed
qed


lemma processChunks_preserves:
  assumes e: "\<And>e s. P s \<Longrightarrow> P (enqueue e s)"
    and w: "\<And>ms s. P s \<Longrightarrow> P (wait ms s)"
    and u: "\<And>x s. P s \<Longrightarrow> P (s\<lparr>warnings := x\<rparr>)"
    and t1: "\<And>W p i n a s r. P s \<Longrightarrow> tryChunk W p i n a s = Inr r \<Longrightarrow> P r"
    and t2: "\<And>W p i n a s m r. P s \<Longrightarrow> tryChunk W p i n a s = Inl (m, r) \<Longrightarrow> P r"
  shows "P st \<Longrightarrow> P (processChunk W p n i st)"
    and "P st \<Longrightarrow> P (processChunks W p n st)"
proof -
  have one: "P st \<Longrightarrow> P (processChunk W p n i st)" for i st
  proof -
    assume "P st"
    then have "P (enqueue (Progress (js ''Processing chunk '' @ natToString (i + 1) @ js ''/'' @ natToString n
                   @ js '' ('' @ p @ js '')...'') (i + 1) n) st)" by (rule e)
    then show ?thesis
      unfolding processChunk_def
    proof (rule chunkLoop_preserves [where P = P, rotated 5])
      show "\<And>e s. P s \<Longrightarrow> P (enqueue e s)" by (rule e)
      show "\<And>ms s. P s \<Longrightarrow> P (wait ms s)" by (rule w)
      show "\<And>x s. P s \<Longrightarrow> P (s\<lparr>warnings := x\<rparr>)" by (rule u)
      show "\<And>W p i n a s r. P s \<Longrightarrow> tryChunk W p i n a s = Inr r \<Longrightarrow> P r" by (rule t1)
      show "\<And>W p i n a s m r. P s \<Longrightarrow> tryChunk W p i n a s = Inl (m, r) \<Longrightarrow> P r" by (rule t2)
    qed
  qed
  have all: "P st \<Longrightarrow> P (foldl (\<lambda>s i. processChunk W p n i s) st xs)" for xs st
    by (induction xs arbitrary: st) (simp_all add: one)
  show "P st \<Longrightarrow> P (processChunk W p n i st)" by (rule one)
  show "P st \<Longrightarrow> P (processChunks W p n st)" unfolding processChunks_def by (rule all)
qed

lemma bankName_kept_simple:
  "bankNameVar (enqueue e st) = bankNameVar st"
  "bankNameVar (wait ms st) = bankNameVar st"
  by (simp_all add: enqueue_def wait_def)

lemma tryChunk_keeps:
  assumes "truthy b" "bankNameVar st = Some b"
  shows "tryChunk W p i n a st = Inr r \<Longrightarrow> bankNameVar r = Some b"
    and "tryChunk W p i n a st = Inl (m, r) \<Longrightarrow> bankNameVar r = Some b"
proof -
  have ab: "\<And>parsed. assignBankName parsed (st\<lparr>parsedLog := parsedLog st @ [parsed]\<rparr>)
      = Inr (st\<lparr>parsedLog := parsedLog st @ [parsed]\<rparr>)"
    using assms by (simp add: assignBankName_def truthyOpt_def)
  show "tryChunk W p i n a st = Inr r \<Longrightarrow> bankNameVar r = Some b"
    unfolding tryChunk_def Let_def ab using assms(2)
    by (auto split: sum.splits jsError.splits if_splits simp: bankName_kept_simple)
  show "tryChunk W p i n a st = Inl (m, r) \<Longrightarrow> bankNameVar r = Some b"
    unfolding tryChunk_def Let_def ab using assms(2)
    by (auto split: sum.splits jsError.splits if_splits simp: bankName_kept_simple)
qed

lemma split_two: "splitPdfIntoChunks n 2 = Some (map (chunkPages n 2) [0..<(n + 2 - 1) div 2])"
  using splitLoop_correct [of 2 "(n + 2 - 1) div 2" n 0 "[]"] by (simp add: splitPdfIntoChunks_def)

text \<open>
  Claim C9: once the variable \<^verbatim>\<open>bankName\<close> holds a truthy value, processing a chunk, or all
  chunks, leaves it as it is; and for every document that loads, the handler ends with a
  final state in which \<^verbatim>\<open>bankName\<close> is the bank name of the first parsed response, in the
  order of processing, that gave a truthy one (undefined when none did), and the last
  event of the stream is the \<^verbatim>\<open>complete\<close> event carrying the warnings and that value.
\<close>

theorem bankName_write_once:
  "(truthyOpt (bankNameVar st)
      \<longrightarrow> bankNameVar (processChunk W apiProvider totalChunks i st) = bankNameVar st
        \<and> bankNameVar (processChunks W apiProvider totalChunks st) = bankNameVar st)
   \<and> (\<exists>final. streamStart W apiProvider (Inr totalPages) = Some final
        \<and> bankNameVar final = firstBankName (parsedLog final)
        \<and> last (enqueued final) = Complete (warnings final) (firstBankName (parsedLog final)))"
proof (intro conjI impI)
  assume "truthyOpt (bankNameVar st)"
  then obtain b where b: "bankNameVar st = Some b" "truthy b"
    by (auto simp: truthyOpt_def split: option.splits)
  let ?P = "\<lambda>s. bankNameVar s = Some b"
  have e: "\<And>e s. ?P s \<Longrightarrow> ?P (enqueue e s)" and w: "\<And>ms s. ?P s \<Longrightarrow> ?P (wait ms s)"
    and u: "\<And>x s. ?P s \<Longrightarrow> ?P (s\<lparr>warnings := x\<rparr>)"
    by (simp_all add: bankName_kept_simple)
  have t1: "\<And>W p i n a s r. ?P s \<Longrightarrow> tryChunk W p i n a s = Inr r \<Longrightarrow> ?P r"
    using tryChunk_keeps(1) [OF b(2)] by blast
  have t2: "\<And>W p i n a s m r. ?P s \<Longrightarrow> tryChunk W p i n a s = Inl (m, r) \<Longrightarrow> ?P r"
    using tryChunk_keeps(2) [OF b(2)] by blast
  have "?P (processChunk W apiProvider totalChunks i st)"
    using b(1) by (rule processChunks_preserves(1) [where P = ?P, rotated 5]) (fact e w u t1 t2)+
  then show "bankNameVar (processChunk W apiProvider totalChunks i st) = bankNameVar st"
    using b(1) by simp
  have "?P (processChunks W apiProvider totalChunks st)"
    using b(1) by (rule processChunks_preserves(2) [where P = ?P, rotated 5]) (fact e w u t1 t2)+
  then show "bankNameVar (processChunks W apiProvider totalChunks st) = bankNameVar st"
    using b(1) by simp
next
  let ?n = "(totalPages + 2 - 1) div 2"
  let ?st1 = "enqueue (Progress (js ''Split PDF into '' @ natToString ?n
                 @ js '' chunks. Starting processing...'') 0 ?n) startState"
  let ?st2 = "processChunks W apiProvider ?n ?st1"
  let ?final = "enqueue (Complete (warnings ?st2) (bankNameVar ?st2)) ?st2"
  have s: "streamStart W apiProvider (Inr totalPages) = Some ?final"
    by (simp add: streamStart_def split_two Let_def)
  have "bankInv startState" by (simp add: bankInv_def startState_def firstBankName_def)
  then have "bankInv ?st1" by (rule bankInv_simple)
  then have i2: "bankInv ?st2"
    by (rule processChunks_preserves(2) [where P = bankInv, rotated 5])
      (blast intro: bankInv_simple tryChunk_inv)+
  then have "bankInv ?final" by (rule bankInv_simple)
  then have 1: "bankNameVar ?final = firstBankName (parsedLog ?final)" by (simp add: bankInv_def)
  have 2: "last (enqueued ?final) = Complete (warnings ?final) (firstBankName (parsedLog ?final))"
    using i2 by (simp add: enqueue_def bankInv_def)
  from s 1 2 show "\<exists>final. streamStart W apiProvider (Inr totalPages) = Some final
        \<and> bankNameVar final = firstBankName (parsedLog final)
        \<and> last (enqueued final) = Complete (warnings final) (firstBankName (parsedLog final))"
    by blast
qed

lemma chunkLoop_rate_limit_step:
  assumes "retries \<le> MAX_RETRIES" "chunkResponse W p i retries = Inl m" "rateLimited m"
  shows "chunkLoop W p i n retries st
     = chunkLoop W p i n (retries + 1)
         (wait 32000 (enqueue (Progress (js ''Rate limited. Waiting 32s...'') (i + 1) n) st))"
proof -
  have "tryChunk W p i n retries st = Inl (m, st)" using assms(2) by (simp add: tryChunk_def)
  then show ?thesis using assms(1,3) by (subst chunkLoop.simps) simp
qed

lemma chunkLoop_exhausted: "MAX_RETRIES < retries \<Longrightarrow> chunkLoop W p i n retries st = st"
  by (subst chunkLoop.simps) simp

text \<open>
  Claim C1, on the code: a failure with a rate-limit message, met while \<^verbatim>\<open>retries\<close> is at
  most \<^verbatim>\<open>MAX_RETRIES\<close>, enqueues the progress event, waits 32000 ms and runs the loop again
  for the same chunk, with \<^verbatim>\<open>retries\<close> one higher. So when the first three calls for a
  chunk all fail with a rate-limit message the loop ends after the third: the state is
  the starting one with three progress events and three waits added, whatever a fourth
  call would return; no transactions event is enqueued and no warning is recorded.
\<close>

theorem chunkLoop_rate_limit_budget:
  "(retries \<le> MAX_RETRIES \<and> chunkResponse W apiProvider i retries = Inl m \<and> rateLimited m
      \<longrightarrow> chunkLoop W apiProvider i totalChunks retries st
          = chunkLoop W apiProvider i totalChunks (retries + 1)
              (wait 32000 (enqueue (Progress (js ''Rate limited. Waiting 32s...'') (i + 1) totalChunks) st)))
   \<and> ((\<forall>a\<le>MAX_RETRIES. \<exists>e. chunkResponse W apiProvider i a = Inl e \<and> rateLimited e)
      \<longrightarrow> chunkLoop W apiProvider i totalChunks 0 st
          = wait 32000 (enqueue (Progress (js ''Rate limited. Waiting 32s...'') (i + 1) totalChunks)
             (wait 32000 (enqueue (Progress (js ''Rate limited. Waiting 32s...'') (i + 1) totalChunks)
               (wait 32000 (enqueue (Progress (js ''Rate limited. Waiting 32s...'') (i + 1) totalChunks) st))))))"
proof (intro conjI impI)
  assume "retries \<le> MAX_RETRIES \<and> chunkResponse W apiProvider i retries = Inl m \<and> rateLimited m"
  then show "chunkLoop W apiProvider i totalChunks retries st
          = chunkLoop W apiProvider i totalChunks (retries + 1)
              (wait 32000 (enqueue (Progress (js ''Rate limited. Waiting 32s...'') (i + 1) totalChunks) st))"
    using chunkLoop_rate_limit_step by blast
next
  assume h: "\<forall>a\<le>MAX_RETRIES. \<exists>e. chunkResponse W apiProvider i a = Inl e \<and> rateLimited e"
  have step: "\<And>a s. a \<le> MAX_RETRIES \<Longrightarrow> chunkLoop W apiProvider i totalChunks a s
     = chunkLoop W apiProvider i totalChunks (a + 1)
         (wait 32000 (enqueue (Progress (js ''Rate limited. Waiting 32s...'') (i + 1) totalChunks) s))"
    using h chunkLoop_rate_limit_step by blast
  have "chunkLoop W apiProvider i totalChunks 0 st
      = chunkLoop W apiProvider i totalChunks 3
          (wait 32000 (enqueue (Progress (js ''Rate limited. Waiting 32s...'') (i + 1) totalChunks)
             (wait 32000 (enqueue (Progress (js ''Rate limited. Waiting 32s...'') (i + 1) totalChunks)
               (wait 32000 (enqueue (Progress (js ''Rate limited. Waiting 32s...'') (i + 1) totalChunks) st))))))"
    using step [of 0] step [of 1] step [of 2] by (simp add: MAX_RETRIES_def numeral_3_eq_3 numeral_2_eq_2)
  then show "chunkLoop W apiProvider i totalChunks 0 st
          = wait 32000 (enqueue (Progress (js ''Rate limited. Waiting 32s...'') (i + 1) totalChunks)
             (wait 32000 (enqueue (Progress (js ''Rate limited. Waiting 32s...'') (i + 1) totalChunks)
               (wait 32000 (enqueue (Progress (js ''Rate limited. Waiting 32s...'') (i + 1) totalChunks) st)))))"
    by (simp add: chunkLoop_exhausted MAX_RETRIES_def)
qed


lemma rateLimited_429: "rateLimited (js ''429 Too Many Requests'')"
  by (simp add: rateLimited_def js_def)

theorem chunkLoop_rate_limit_budget_witness:
  "streamStart rateLimitedWorld (js ''gemini'') (Inr 1) =
     Some \<lparr> enqueued =
              [Progress (js ''Analyzing PDF structure and splitting pages...'') 0 0,
               Progress (js ''Split PDF into 1 chunks. Starting processing...'') 0 1,
               Progress (js ''Processing chunk 1/1 (gemini)...'') 1 1,
               Progress (js ''Rate limited. Waiting 32s...'') 1 1,
               Progress (js ''Rate limited. Waiting 32s...'') 1 1,
               Progress (js ''Rate limited. Waiting 32s...'') 1 1,
               Complete [] None],
            warnings = [], bankNameVar = None, waited = [32000, 32000, 32000], parsedLog = [] \<rparr>"
proof -
  have r: "\<forall>a\<le>MAX_RETRIES. \<exists>e. chunkResponse rateLimitedWorld (js ''gemini'') 0 a = Inl e \<and> rateLimited e"
    using rateLimited_429 by (auto simp: chunkResponse_def rateLimitedWorld_def MAX_RETRIES_def)
  have n: "natToString 1 = js ''1''" "natToString (Suc 0) = js ''1''" by (simp_all add: natToString.simps js_def)
  have c: "splitPdfIntoChunks 1 2 = Some [[0]]" by (simp add: split_two chunkPages_def)
  note b = chunkLoop_rate_limit_budget [of 0 rateLimitedWorld "js ''gemini''" 0 "[]" "Suc 0", THEN conjunct2, THEN mp, OF r]
  have "processChunks rateLimitedWorld (js ''gemini'') (Suc 0) st
      = wait 32000 (enqueue (Progress (js ''Rate limited. Waiting 32s...'') 1 1)
         (wait 32000 (enqueue (Progress (js ''Rate limited. Waiting 32s...'') 1 1)
           (wait 32000 (enqueue (Progress (js ''Rate limited. Waiting 32s...'') 1 1)
             (enqueue (Progress (js ''Processing chunk '' @ natToString 1 @ js ''/'' @ natToString 1
                   @ js '' ('' @ js ''gemini'' @ js '')...'') 1 1) st))))))" for st
    by (simp add: processChunks_def processChunk_def b)
  then show ?thesis
    by (simp only: streamStart_def sum.case c option.case)
      (simp add: startState_def enqueue_def wait_def n js_def)
qed

lemma bankWorld_parse:
  "parseAIResponse (JSON_parse bankWorld) hdfcText = Inr (JObj [(js ''bankName'', JStr (js ''HDFC''))])"
  "parseAIResponse (JSON_parse bankWorld) iciciText = Inr (JObj [(js ''bankName'', JStr (js ''ICICI''))])"
proof -
  have f: "fenceMatch hdfcText = None" "fenceMatch iciciText = None"
    by (simp_all add: fenceMatch_def afterFirst_def fence_def hdfcText_def iciciText_def js_def)
  have t: "trim hdfcText \<noteq> []" "trim iciciText \<noteq> []" "hdfcText \<noteq> []" "iciciText \<noteq> []"
    by (simp_all add: trim_def isSpace_def hdfcText_def iciciText_def js_def)
  have b: "braceScan hdfcText 0 0 (- 1) = (0, 19)" "braceScan iciciText 0 0 (- 1) = (0, 20)"
    by (simp_all add: hdfcText_def iciciText_def js_def)
  have s: "substring hdfcText 0 19 = hdfcText" "substring iciciText 0 20 = iciciText"
    by (simp_all add: substring_def hdfcText_def iciciText_def js_def)
  have d: "iciciText \<noteq> hdfcText" by (simp add: hdfcText_def iciciText_def js_def)
  show "parseAIResponse (JSON_parse bankWorld) hdfcText = Inr (JObj [(js ''bankName'', JStr (js ''HDFC''))])"
    using t by (simp add: parseAIResponse_def f b s bankWorld_def)
  show "parseAIResponse (JSON_parse bankWorld) iciciText = Inr (JObj [(js ''bankName'', JStr (js ''ICICI''))])"
    using t d by (simp add: parseAIResponse_def f b s bankWorld_def)
qed

theorem bankName_write_once_witness:
  "bankNameVar (processChunk bankWorld (js ''gemini'') 2 1 (startState\<lparr>bankNameVar := Some (JStr (js ''HDFC''))\<rparr>))
     = Some (JStr (js ''HDFC''))
   \<and> (\<exists>final. streamStart bankWorld (js ''gemini'') (Inr 3) = Some final
        \<and> parsedLog final = [JObj [(js ''bankName'', JStr (js ''HDFC''))], JObj [(js ''bankName'', JStr (js ''ICICI''))]]
        \<and> last (enqueued final) = Complete [] (Some (JStr (js ''HDFC''))))"
proof -
  let ?h = "JObj [(js ''bankName'', JStr (js ''HDFC''))]" and ?i = "JObj [(js ''bankName'', JStr (js ''ICICI''))]"
  have t: "truthyOpt (bankNameVar (startState\<lparr>bankNameVar := Some (JStr (js ''HDFC''))\<rparr>))"
    by (simp add: truthyOpt_def js_def)
  note T = bankName_write_once [of "startState\<lparr>bankNameVar := Some (JStr (js ''HDFC''))\<rparr>" bankWorld "js ''gemini''" 2 1 3]
  from T t have 1: "bankNameVar (processChunk bankWorld (js ''gemini'') 2 1 (startState\<lparr>bankNameVar := Some (JStr (js ''HDFC''))\<rparr>))
     = Some (JStr (js ''HDFC''))" by simp
  from T obtain final where f: "streamStart bankWorld (js ''gemini'') (Inr 3) = Some final"
    "bankNameVar final = firstBankName (parsedLog final)"
    "last (enqueued final) = Complete (warnings final) (firstBankName (parsedLog final))" by blast
  have c: "splitPdfIntoChunks 3 2 = Some [[0, 1], [2]]" by (simp add: split_two chunkPages_def upt_rec)
  have r: "chunkResponse bankWorld (js ''gemini'') 0 0 = Inr hdfcText" "chunkResponse bankWorld (js ''gemini'') (Suc 0) 0 = Inr iciciText"
    by (simp_all add: chunkResponse_def bankWorld_def)
  have u: "[0..<2] = [0, 1::nat]" by (simp add: upt_rec)
  have e: "chunkTransactionsOf bankWorld k 0 ?h b = Inr []" "chunkTransactionsOf bankWorld k 0 ?i b = Inr []" for k b
    by (simp_all add: chunkTransactionsOf_def orElse_def js_def)
  have A: "bankNameVar st = None \<Longrightarrow> chunkLoop bankWorld (js ''gemini'') 0 (Suc (Suc 0)) 0 st
      = wait 2000 (enqueue (Progress (js ''Waiting '' @ natToString (2000 div 1000) @ js ''s for rate limit...'') 1 (Suc (Suc 0)))
          (st\<lparr>parsedLog := parsedLog st @ [?h], bankNameVar := Some (JStr (js ''HDFC''))\<rparr>))" for st
    by (subst chunkLoop.simps)
      (simp add: MAX_RETRIES_def tryChunk_def r bankWorld_parse assignBankName_def truthyOpt_def e Let_def, simp add: js_def)
  have B: "bankNameVar st = Some (JStr (js ''HDFC'')) \<Longrightarrow> chunkLoop bankWorld (js ''gemini'') (Suc 0) (Suc (Suc 0)) 0 st
      = st\<lparr>parsedLog := parsedLog st @ [?i]\<rparr>" for st
    by (subst chunkLoop.simps)
      (simp add: MAX_RETRIES_def tryChunk_def r bankWorld_parse assignBankName_def truthyOpt_def e Let_def, simp add: js_def)
  have "streamStart bankWorld (js ''gemini'') (Inr 3)
      = Some (enqueue (Complete [] (Some (JStr (js ''HDFC''))))
          (processChunks bankWorld (js ''gemini'') 2
            (enqueue (Progress (js ''Split PDF into '' @ natToString 2 @ js '' chunks. Starting processing...'') 0 2)
              startState)))
      \<and> parsedLog (processChunks bankWorld (js ''gemini'') 2
            (enqueue (Progress (js ''Split PDF into '' @ natToString 2 @ js '' chunks. Starting processing...'') 0 2)
              startState)) = [?h, ?i]
      \<and> warnings (processChunks bankWorld (js ''gemini'') 2
            (enqueue (Progress (js ''Split PDF into '' @ natToString 2 @ js '' chunks. Starting processing...'') 0 2)
              startState)) = []"
    by (simp only: streamStart_def sum.case c option.case)
      (simp add: processChunks_def processChunk_def u A B startState_def enqueue_def wait_def Let_def
         numeral_2_eq_2)
  with f(1) have p: "parsedLog final = [?h, ?i]" "warnings final = []"
    by (auto simp: enqueue_def)
  have "firstBankName [?h, ?i] = Some (JStr (js ''HDFC''))"
    by (simp add: firstBankName_def truthyOpt_def js_def)
  with f p 1 show ?thesis by simp
qed

end
